theory Spec2Isabelle
  imports Main "HOL-Library.Word" "HOL-Library.Signed_Division"
begin

unbundle bit_operations_syntax

section \<open>Data model\<close>

text \<open>
  The programs work on raw arrays: \<^verbatim>\<open>unsigned char*\<close> pixel buffers and
  \<^verbatim>\<open>unsigned int*\<close> mask records. An array is a list of machine words here; a list
  is never a null pointer, so the null tests of the sources are written only where a
  loader can return \<^verbatim>\<open>nullptr\<close> (an \<open>option\<close>). C++ \<^verbatim>\<open>int\<close> values are
  mathematical integers; an access outside an array, a signed addition that leaves the
  32-bit range and a shift by a negative count are undefined behaviour in C++ and are
  results of their own in the model.
\<close>

type_synonym u8 = "8 word"
type_synonym u32 = "32 word"

definition INT_MAX :: int where
  "INT_MAX = 2147483647"

definition INT_MIN :: int where
  "INT_MIN = - 2147483648"

definition UINT_MAX :: int where
  "UINT_MAX = 4294967295"

datatype fault = OutOfBounds | SignedOverflow | NegativeShift

text \<open>Conversion of an \<^verbatim>\<open>int\<close> expression to \<^verbatim>\<open>unsigned char\<close>: the low 8 bits.\<close>

definition to_uchar :: "int \<Rightarrow> u8" where
  "to_uchar x = word_of_int x"

text \<open>\<open>a[i]\<close> is defined when \<open>i\<close> is an index of the array.\<close>

definition in_range :: "'a list \<Rightarrow> int \<Rightarrow> bool" where
  "in_range a i \<longleftrightarrow> 0 \<le> i \<and> i < int (length a)"

text \<open>
  What \<^verbatim>\<open>loadPixels\<close> returns for a file it can read: the dimensions of the picture
  and a buffer of \<open>width * height * 3\<close> bytes, row by row, three bytes per pixel. The
  theorems state this size as a hypothesis on the buffers they take.
\<close>

record image =
  width :: int
  height :: int
  pixels :: "u8 list"

text \<open>
  \<^verbatim>\<open>for (int i = i0; i < n; ++i) body\<close> over a state \<open>s\<close>; the loop stops at the
  first undefined access.
\<close>

function for_loop :: "int \<Rightarrow> int \<Rightarrow> (int \<Rightarrow> 's \<Rightarrow> fault + 's) \<Rightarrow> 's \<Rightarrow> fault + 's" where
  "for_loop i n body s =
     (if i < n then
        (case body i s of
           Inl e \<Rightarrow> Inl e
         | Inr s' \<Rightarrow> for_loop (i + 1) n body s')
      else Inr s)"
  by pat_completeness auto
termination
  by (relation "measure (\<lambda>(i, n, body, s). nat (n - i))") auto

declare for_loop.simps [simp del]

section \<open>Bit operations\<close>

text \<open>
  \<^verbatim>\<open>rotateRight\<close> and \<^verbatim>\<open>rotateLeft\<close> of the demonstration program. The byte is promoted to \<^verbatim>\<open>int\<close> before it is shifted and the
  result is cut to 8 bits on return. \<^verbatim>\<open>n % 8\<close> truncates towards zero, so a negative
  \<open>n\<close> that is no multiple of 8 leaves a negative shift count.
\<close>

definition rotateRight :: "u8 \<Rightarrow> int \<Rightarrow> fault + u8" where
  "rotateRight byte n =
     (let n = n smod 8 in
      if n < 0 then Inl NegativeShift
      else Inr (to_uchar (drop_bit (nat n) (uint byte) OR push_bit (nat (8 - n)) (uint byte))))"

definition rotateLeft :: "u8 \<Rightarrow> int \<Rightarrow> fault + u8" where
  "rotateLeft byte n =
     (let n = n smod 8 in
      if n < 0 then Inl NegativeShift
      else Inr (to_uchar (push_bit (nat n) (uint byte) OR drop_bit (nat (8 - n)) (uint byte))))"

text \<open>The two helpers of the decoder; \<open>k\<close> is \<^verbatim>\<open>unsigned\<close> there and \<^verbatim>\<open>k &= 7\<close>.\<close>

definition bxor :: "u8 \<Rightarrow> u8 \<Rightarrow> u8" where
  "bxor a b = to_uchar (uint a XOR uint b)"

definition brotate_left :: "u8 \<Rightarrow> u32 \<Rightarrow> u8" where
  "brotate_left v k =
     (let k = k AND 7 in
      to_uchar ((push_bit (unat k) (uint v) OR drop_bit (8 - unat k) (uint v)) AND 0xFF))"

section \<open>Encoder\<close>

text \<open>
  The three steps of the encoder's \<^verbatim>\<open>main\<close>. Each step allocates its output array
  and fills it index by index; between the steps the program saves the array as a
  picture and loads it again, which gives back the same bytes. \<^verbatim>\<open>width\<close> and
  \<^verbatim>\<open>height\<close> are overwritten by every load, so \<open>totalBytes\<close> is the size of the
  secret picture, the second one loaded.
\<close>

definition paso_xor :: "u8 list \<Rightarrow> u8 list \<Rightarrow> int \<Rightarrow> fault + u8 list" where
  "paso_xor a b totalBytes =
     for_loop 0 totalBytes
       (\<lambda>i out. if in_range out i \<and> in_range a i \<and> in_range b i
                 then Inr (out[nat i := to_uchar (uint (a ! nat i) XOR uint (b ! nat i))])
                 else Inl OutOfBounds)
       (replicate (nat totalBytes) 0)"

definition paso_rotar :: "u8 list \<Rightarrow> int \<Rightarrow> fault + u8 list" where
  "paso_rotar p1Loaded totalBytes =
     for_loop 0 totalBytes
       (\<lambda>i out. if in_range out i \<and> in_range p1Loaded i
                 then Inr (out[nat i := to_uchar (drop_bit 3 (uint (p1Loaded ! nat i))
                                                   OR push_bit (8 - 3) (uint (p1Loaded ! nat i)))])
                 else Inl OutOfBounds)
       (replicate (nat totalBytes) 0)"

record encoded =
  P1 :: "u8 list"
  P2 :: "u8 list"
  P3 :: "u8 list"

text \<open>\<open>None\<close> is the early \<^verbatim>\<open>return -1\<close> when a picture cannot be loaded.\<close>

definition encoder_main :: "image option \<Rightarrow> image option \<Rightarrow> fault + encoded option" where
  "encoder_main I_O I_M =
     (case (I_O, I_M) of
        (Some io, Some im) \<Rightarrow>
          (let totalBytes = width im * height im * 3 in
           case paso_xor (pixels io) (pixels im) totalBytes of
             Inl e \<Rightarrow> Inl e
           | Inr p1Data \<Rightarrow>
               (case paso_rotar p1Data totalBytes of
                  Inl e \<Rightarrow> Inl e
                | Inr p2Data \<Rightarrow>
                    (case paso_xor p2Data (pixels im) totalBytes of
                       Inl e \<Rightarrow> Inl e
                     | Inr p3Data \<Rightarrow> Inr (Some \<lparr>P1 = p1Data, P2 = p2Data, P3 = p3Data\<rparr>))))
      | _ \<Rightarrow> Inr None)"

section \<open>Mask files\<close>

text \<open>
  A mask file is read with \<^verbatim>\<open>operator>>\<close>. The text is taken as its sequence of
  blank-separated items: a decimal integer of any size, or something that is no
  integer. The stream keeps the items not yet read and its fail bit; once the bit is
  set every extraction leaves its variable as it was. An integer outside the range of the
  variable is consumed, sets the bit and stores the nearest bound; an item that is no
  integer sets the bit and stores 0; the end of the file sets the bit and stores nothing.
  An \<^verbatim>\<open>unsigned\<close> variable takes a negative integer modulo \<open>2^32\<close>.
\<close>

datatype token = Num int | Junk

record ifstream =
  rest :: "token list"
  failbit :: bool

definition extract_int :: "ifstream \<Rightarrow> int \<Rightarrow> ifstream \<times> int" where
  "extract_int f x =
     (if failbit f then (f, x)
      else case rest f of
        [] \<Rightarrow> (f\<lparr>failbit := True\<rparr>, x)
      | Junk # ts \<Rightarrow> (f\<lparr>failbit := True\<rparr>, 0)
      | Num v # ts \<Rightarrow>
          if v < INT_MIN then (\<lparr>rest = ts, failbit = True\<rparr>, INT_MIN)
          else if INT_MAX < v then (\<lparr>rest = ts, failbit = True\<rparr>, INT_MAX)
          else (\<lparr>rest = ts, failbit = False\<rparr>, v))"

definition extract_uint :: "ifstream \<Rightarrow> u32 \<Rightarrow> ifstream \<times> u32" where
  "extract_uint f x =
     (if failbit f then (f, x)
      else case rest f of
        [] \<Rightarrow> (f\<lparr>failbit := True\<rparr>, x)
      | Junk # ts \<Rightarrow> (f\<lparr>failbit := True\<rparr>, 0)
      | Num v # ts \<Rightarrow>
          if v < - UINT_MAX \<or> UINT_MAX < v then (\<lparr>rest = ts, failbit = True\<rparr>, word_of_int UINT_MAX)
          else (\<lparr>rest = ts, failbit = False\<rparr>, word_of_int v))"

text \<open>\<^verbatim>\<open>while (f >> r >> g >> b) ++n_pixels;\<close> The values read are not used.\<close>

function count_triplets :: "ifstream \<Rightarrow> int \<Rightarrow> ifstream \<times> int" where
  "count_triplets f n_pixels =
     (let (f1, r) = extract_int f 0;
          (f2, g) = extract_int f1 0;
          (f3, b) = extract_int f2 0
      in if failbit f3 then (f3, n_pixels) else count_triplets f3 (n_pixels + 1))"
  by pat_completeness auto
termination
  by (relation "measure (\<lambda>(f, n). length (rest f))")
     (auto simp add: extract_int_def split: if_splits list.splits token.splits)

declare count_triplets.simps [simp del]

text \<open>
  The second pass of the decoder's loader:
  \<^verbatim>\<open>for (int i = 0; i < n_pixels * 3; i += 3) f >> S[i] >> S[i + 1] >> S[i + 2];\<close>
\<close>

function read_S :: "int \<Rightarrow> int \<Rightarrow> ifstream \<times> u32 list \<Rightarrow> fault + ifstream \<times> u32 list" where
  "read_S i n_pixels st =
     (if i < n_pixels * 3 then
        (case st of (f, S) \<Rightarrow>
           if in_range S i \<and> in_range S (i + 1) \<and> in_range S (i + 2) then
             (let (f1, a) = extract_uint f (S ! nat i);
                  (f2, b) = extract_uint f1 (S ! nat (i + 1));
                  (f3, c) = extract_uint f2 (S ! nat (i + 2))
              in read_S (i + 3) n_pixels (f3, S[nat i := a, nat (i + 1) := b, nat (i + 2) := c]))
           else Inl OutOfBounds)
      else Inr st)"
  by pat_completeness auto
termination
  by (relation "measure (\<lambda>(i, n, st). nat (n * 3 - i))") auto

declare read_S.simps [simp del]

text \<open>
  \<^verbatim>\<open>loadSeedMasking\<close> of the decoder. \<open>file\<close> is \<open>None\<close> when the file cannot be
  opened; \<open>seed\<close> is the caller's variable, passed by reference. The result is the array
  \<open>S\<close> with the final values of \<open>seed\<close> and \<open>n_pixels\<close>, or \<open>None\<close> for \<^verbatim>\<open>nullptr\<close>.
\<close>

definition loadSeedMasking :: "token list option \<Rightarrow> int \<Rightarrow> fault + (u32 list \<times> int \<times> int) option" where
  "loadSeedMasking file seed =
     (case file of
        None \<Rightarrow> Inr None
      | Some ts \<Rightarrow>
          (let f = \<lparr>rest = ts, failbit = False\<rparr>;
               (f, seed) = extract_int f seed;
               (f, n_pixels) = count_triplets f 0;
               f = \<lparr>rest = ts, failbit = False\<rparr>;
               (f, seed) = extract_int f seed;
               S = replicate (nat (n_pixels * 3)) 0
           in case read_S 0 n_pixels (f, S) of
                Inl e \<Rightarrow> Inl e
              | Inr (f, S) \<Rightarrow> Inr (Some (S, seed, n_pixels))))"

text \<open>
  The loader of the base program reads the file twice as well, but closes and opens it
  again (the file is the same at both openings), reads every component into an
  \<^verbatim>\<open>int\<close> and stores it in the \<^verbatim>\<open>unsigned int\<close> array:
  \<^verbatim>\<open>archivo >> r >> g >> b; RGB[i] = r; RGB[i + 1] = g; RGB[i + 2] = b;\<close>
\<close>

function read_RGB :: "int \<Rightarrow> int \<Rightarrow> ifstream \<times> u32 list \<Rightarrow> fault + ifstream \<times> u32 list" where
  "read_RGB i n_pixels st =
     (if i < n_pixels * 3 then
        (case st of (f, RGB) \<Rightarrow>
           (let (f1, r) = extract_int f 0;
                (f2, g) = extract_int f1 0;
                (f3, b) = extract_int f2 0
            in if in_range RGB i \<and> in_range RGB (i + 1) \<and> in_range RGB (i + 2) then
                 read_RGB (i + 3) n_pixels
                   (f3, RGB[nat i := word_of_int r, nat (i + 1) := word_of_int g,
                            nat (i + 2) := word_of_int b])
               else Inl OutOfBounds))
      else Inr st)"
  by pat_completeness auto
termination
  by (relation "measure (\<lambda>(i, n, st). nat (n * 3 - i))") auto

declare read_RGB.simps [simp del]

definition loadSeedMasking_base :: "token list option \<Rightarrow> int \<Rightarrow> fault + (u32 list \<times> int \<times> int) option" where
  "loadSeedMasking_base archivo seed =
     (case archivo of
        None \<Rightarrow> Inr None
      | Some ts \<Rightarrow>
          (let f = \<lparr>rest = ts, failbit = False\<rparr>;
               (f, seed) = extract_int f seed;
               (f, n_pixels) = count_triplets f 0;
               f = \<lparr>rest = ts, failbit = False\<rparr>;
               RGB = replicate (nat (n_pixels * 3)) 0;
               (f, seed) = extract_int f seed
           in case read_RGB 0 n_pixels (f, RGB) of
                Inl e \<Rightarrow> Inl e
              | Inr (f, RGB) \<Rightarrow> Inr (Some (RGB, seed, n_pixels))))"

section \<open>Decoder\<close>

text \<open>
  \<^verbatim>\<open>desenmascarar\<close>: \<open>S[k] - mask[k]\<close> is computed in \<^verbatim>\<open>unsigned int\<close>, masked with
  \<open>0xFF\<close> and stored as a byte at \<open>img[seed + k]\<close>; \<open>msk\<close> is the array \<^verbatim>\<open>mask\<close>.
\<close>

definition desenmascarar :: "u8 list \<Rightarrow> u8 list \<Rightarrow> u32 list \<Rightarrow> int \<Rightarrow> int \<Rightarrow> fault + u8 list" where
  "desenmascarar img msk S seed totalBytes =
     (if totalBytes \<le> 0 then Inr img
      else for_loop 0 totalBytes
             (\<lambda>k img. if in_range S k \<and> in_range msk k \<and> in_range img (seed + k)
                       then Inr (img[nat (seed + k) :=
                                   ucast ((S ! nat k - ucast (msk ! nat k)) AND 0xFF)])
                       else Inl OutOfBounds)
             img)"

text \<open>The two whole-buffer loops of the decoder's \<^verbatim>\<open>main\<close>.\<close>

definition xor_imRand :: "u8 list \<Rightarrow> u8 list \<Rightarrow> int \<Rightarrow> fault + u8 list" where
  "xor_imRand img imRand dataSize =
     for_loop 0 dataSize
       (\<lambda>i img. if in_range img i \<and> in_range imRand i
                 then Inr (img[nat i := bxor (img ! nat i) (imRand ! nat i)])
                 else Inl OutOfBounds)
       img"

definition rotar_izquierda :: "u8 list \<Rightarrow> int \<Rightarrow> fault + u8 list" where
  "rotar_izquierda img dataSize =
     for_loop 0 dataSize
       (\<lambda>i img. if in_range img i
                 then Inr (img[nat i := brotate_left (img ! nat i) 3])
                 else Inl OutOfBounds)
       img"

text \<open>
  The test that guards steps 2 and 1:
  \<^verbatim>\<open>(n * 3 >= totalMaskBytes) && ((seed + totalMaskBytes) <= dataSize)\<close>.
  The sum is evaluated only when the first comparison holds.
\<close>

definition region_valid :: "int \<Rightarrow> int \<Rightarrow> int \<Rightarrow> int \<Rightarrow> fault + bool" where
  "region_valid n seed totalMaskBytes dataSize =
     (if n * 3 \<ge> totalMaskBytes then
        (if seed + totalMaskBytes < INT_MIN \<or> INT_MAX < seed + totalMaskBytes
         then Inl SignedOverflow
         else Inr (seed + totalMaskBytes \<le> dataSize))
      else Inr False)"

text \<open>
  The three inverse steps. Each takes the buffer and the lines written to
  \<^verbatim>\<open>cout\<close> so far and returns both.
\<close>

definition paso3_inverso ::
  "int \<Rightarrow> int \<Rightarrow> int \<Rightarrow> u8 list \<Rightarrow> u8 list \<times> string list \<Rightarrow> fault + u8 list \<times> string list" where
  "paso3_inverso dataSize w2 h2 imRand st =
     (case st of (img, out) \<Rightarrow>
        if dataSize > 0 \<and> w2 * h2 * 3 = dataSize then
          (case xor_imRand img imRand dataSize of
             Inl e \<Rightarrow> Inl e
           | Inr img' \<Rightarrow> Inr (img', out @ [''Paso 3 inverso: XOR aplicado(con im rand).'']))
        else Inr (img, out))"

definition paso2_inverso ::
  "int \<Rightarrow> u8 list \<Rightarrow> int \<Rightarrow> u32 list \<Rightarrow> int \<Rightarrow> int \<Rightarrow> u8 list \<times> string list
     \<Rightarrow> fault + u8 list \<times> string list" where
  "paso2_inverso dataSize msk totalMaskBytes S2 seed2 n2 st =
     (case st of (img, out) \<Rightarrow>
        (case region_valid n2 seed2 totalMaskBytes dataSize of
           Inl e \<Rightarrow> Inl e
         | Inr True \<Rightarrow>
             (case desenmascarar img msk S2 seed2 totalMaskBytes of
                Inl e \<Rightarrow> Inl e
              | Inr img' \<Rightarrow>
                  (case rotar_izquierda img' dataSize of
                     Inl e \<Rightarrow> Inl e
                   | Inr img'' \<Rightarrow>
                       Inr (img'', out @ [''Paso 2 inverso: Desenmascarado con S2 y rotacion aplicada.''])))
         | Inr False \<Rightarrow> Inr (img, out @ [''S2: La  correccion no es valida.''])))"

definition paso1_inverso ::
  "int \<Rightarrow> u8 list \<Rightarrow> u8 list \<Rightarrow> int \<Rightarrow> u32 list \<Rightarrow> int \<Rightarrow> int \<Rightarrow> u8 list \<times> string list
     \<Rightarrow> fault + u8 list \<times> string list" where
  "paso1_inverso dataSize imRand msk totalMaskBytes S1 seed1 n1 st =
     (case st of (img, out) \<Rightarrow>
        (case region_valid n1 seed1 totalMaskBytes dataSize of
           Inl e \<Rightarrow> Inl e
         | Inr True \<Rightarrow>
             (case desenmascarar img msk S1 seed1 totalMaskBytes of
                Inl e \<Rightarrow> Inl e
              | Inr img' \<Rightarrow>
                  (case xor_imRand img' imRand dataSize of
                     Inl e \<Rightarrow> Inl e
                   | Inr img'' \<Rightarrow>
                       Inr (img'', out @ [''Paso 1 inverso: Desenmascarado con S1 y XOR aplicado.''])))
         | Inr False \<Rightarrow> Inr (img, out @ [''S1: La region de correccion no es valida.''])))"

text \<open>Lines 117 to 153 of the decoder's \<^verbatim>\<open>main\<close>: the steps in the order 3, 2, 1.\<close>

definition pasos_inversos ::
  "int \<Rightarrow> u8 list \<Rightarrow> int \<Rightarrow> int \<Rightarrow> u8 list \<Rightarrow> u8 list \<Rightarrow> int \<Rightarrow> u32 list \<Rightarrow> int \<Rightarrow> int
     \<Rightarrow> u32 list \<Rightarrow> int \<Rightarrow> int \<Rightarrow> fault + u8 list \<times> string list" where
  "pasos_inversos dataSize img w2 h2 imRand msk totalMaskBytes S1 seed1 n1 S2 seed2 n2 =
     (case paso3_inverso dataSize w2 h2 imRand (img, []) of
        Inl e \<Rightarrow> Inl e
      | Inr st3 \<Rightarrow>
          (case paso2_inverso dataSize msk totalMaskBytes S2 seed2 n2 st3 of
             Inl e \<Rightarrow> Inl e
           | Inr st2 \<Rightarrow> paso1_inverso dataSize imRand msk totalMaskBytes S1 seed1 n1 st2))"

text \<open>
  The decoder's \<^verbatim>\<open>main\<close>. Its inputs are what the five loads return for
  \<^verbatim>\<open>P3.bmp\<close>, \<^verbatim>\<open>I_M.bmp\<close>, \<^verbatim>\<open>M.bmp\<close>, \<^verbatim>\<open>M1.txt\<close> and \<^verbatim>\<open>M2.txt\<close>, and whether
  the final picture can be saved. The result is the exit code, the buffer handed to
  \<^verbatim>\<open>exportImage\<close> and the lines written to \<^verbatim>\<open>cout\<close>.
\<close>

record salida =
  exit_code :: int
  I_D :: "u8 list option"
  cout :: "string list"

definition decoder_main ::
  "image option \<Rightarrow> image option \<Rightarrow> image option \<Rightarrow> token list option \<Rightarrow> token list option
     \<Rightarrow> bool \<Rightarrow> fault + salida" where
  "decoder_main P3_bmp I_M_bmp M_bmp M1_txt M2_txt saved =
     (case P3_bmp of
        None \<Rightarrow> Inr \<lparr>exit_code = 1, I_D = None, cout = []\<rparr>
      | Some p3 \<Rightarrow>
     (case I_M_bmp of
        None \<Rightarrow> Inr \<lparr>exit_code = 1, I_D = None, cout = []\<rparr>
      | Some im \<Rightarrow>
     if width p3 \<noteq> width im \<or> height p3 \<noteq> height im
     then Inr \<lparr>exit_code = 1, I_D = None, cout = []\<rparr>
     else
     (case M_bmp of
        None \<Rightarrow> Inr \<lparr>exit_code = 1, I_D = None, cout = []\<rparr>
      | Some m \<Rightarrow>
     (let totalMaskBytes = width m * height m * 3 in
     (case loadSeedMasking M1_txt 0 of
        Inl e \<Rightarrow> Inl e
      | Inr None \<Rightarrow> Inr \<lparr>exit_code = 1, I_D = None, cout = []\<rparr>
      | Inr (Some (S1, seed1, n1)) \<Rightarrow>
     (case loadSeedMasking M2_txt 0 of
        Inl e \<Rightarrow> Inl e
      | Inr None \<Rightarrow> Inr \<lparr>exit_code = 1, I_D = None, cout = []\<rparr>
      | Inr (Some (S2, seed2, n2)) \<Rightarrow>
     (let dataSize = width p3 * height p3 * 3 in
      case pasos_inversos dataSize (pixels p3) (width im) (height im) (pixels im)
             (pixels m) totalMaskBytes S1 seed1 n1 S2 seed2 n2 of
        Inl e \<Rightarrow> Inl e
      | Inr (img, out) \<Rightarrow>
          Inr \<lparr>exit_code = 0, I_D = Some img,
               cout = (if saved then out @ [''Imagen I_D.bmp exportada correctamente.'']
                       else out)\<rparr>)))))))"

section \<open>Records that describe a region\<close>

text \<open>The indices of the region of a record: from \<open>seed\<close>, \<open>totalMaskBytes\<close> bytes.\<close>

definition in_region :: "int \<Rightarrow> int \<Rightarrow> nat \<Rightarrow> bool" where
  "in_region seed totalMaskBytes j \<longleftrightarrow> seed \<le> int j \<and> int j < seed + totalMaskBytes"

text \<open>
  The documented contract of masking: the record holds, for every byte of the region
  that starts at \<open>seed\<close>, the sum modulo 256 of the byte of the buffer and the byte of
  the mask picture; only the low 8 bits of a recorded value enter the restoration.
\<close>

definition describes :: "u32 list \<Rightarrow> u8 list \<Rightarrow> u8 list \<Rightarrow> int \<Rightarrow> int \<Rightarrow> bool" where
  "describes S msk buf seed totalMaskBytes \<longleftrightarrow>
     (\<forall>k \<in> {0 ..< totalMaskBytes}.
        (ucast (S ! nat k) :: u8) = buf ! nat (seed + k) + msk ! nat k)"

section \<open>Rotations\<close>

text \<open>The shift-and-or expressions of the sources are the rotations of a byte.\<close>

lemma rotr_bits:
  "k < 8 \<Longrightarrow> to_uchar (drop_bit k (uint (v::u8)) OR push_bit (8 - k) (uint v)) = word_rotr k v"
proof (rule bit_eqI)
  fix n
  assume k: "k < 8" and n: "possible_bit TYPE(u8) n"
  then have n8: "n < 8" by (simp add: possible_bit_word)
  have lhs: "bit (to_uchar (drop_bit k (uint v) OR push_bit (8 - k) (uint v))) n
      \<longleftrightarrow> bit v (k + n) \<or> (8 - k \<le> n \<and> bit v (n - (8 - k)))"
    using n8 by (simp add: to_uchar_def bit_simps)
  have rhs: "bit (word_rotr k v) n \<longleftrightarrow> bit v ((n + k) mod 8)"
    using n8 by (simp add: bit_simps)
  show "bit (to_uchar (drop_bit k (uint v) OR push_bit (8 - k) (uint v))) n = bit (word_rotr k v) n"
  proof (cases "n + k < 8")
    case True
    then have "(n + k) mod 8 = n + k" and "\<not> 8 - k \<le> n" by simp_all
    then show ?thesis unfolding lhs rhs by (simp add: add.commute)
  next
    case False
    then have m: "(n + k) mod 8 = n - (8 - k)" and "8 - k \<le> n" using k n8
      by (simp_all add: mod_if)
    moreover have nb: "\<not> bit v (k + n)" using False bit_imp_le_length [of v "k + n"] by auto
    ultimately show ?thesis unfolding lhs rhs by simp
  qed
qed

lemma rotl_bits:
  "k < 8 \<Longrightarrow> to_uchar (push_bit k (uint (v::u8)) OR drop_bit (8 - k) (uint v)) = word_rotl k v"
proof (rule bit_eqI)
  fix n
  assume k: "k < 8" and n: "possible_bit TYPE(u8) n"
  then have n8: "n < 8" by (simp add: possible_bit_word)
  have lhs: "bit (to_uchar (push_bit k (uint v) OR drop_bit (8 - k) (uint v))) n
      \<longleftrightarrow> (k \<le> n \<and> bit v (n - k)) \<or> bit v (8 - k + n)"
    using n8 by (simp add: to_uchar_def bit_simps)
  have rhs: "bit (word_rotl k v) n \<longleftrightarrow> bit v ((n + (8 - k)) mod 8)"
    using n8 k by (simp add: bit_simps)
  show "bit (to_uchar (push_bit k (uint v) OR drop_bit (8 - k) (uint v))) n = bit (word_rotl k v) n"
  proof (cases "k \<le> n")
    case True
    then have m: "(n + (8 - k)) mod 8 = n - k" using k n8
      by (simp add: mod_if)
    moreover have nb: "\<not> bit v (8 - k + n)"
      using True k bit_imp_le_length [of v "8 - k + n"] by auto
    ultimately show ?thesis unfolding lhs rhs using True by simp
  next
    case False
    then have m: "(n + (8 - k)) mod 8 = 8 - k + n" using k n8
      by (simp add: mod_if) arith
    then show ?thesis unfolding lhs rhs using False by simp
  qed
qed

lemma to_uchar_and_FF: "to_uchar (x AND 0xFF) = to_uchar x"
proof -
  have "(0xFF::int) = mask 8" by (simp add: mask_eq_exp_minus_1)
  then have "x AND 0xFF = take_bit 8 x" by (simp add: take_bit_eq_mask)
  then show ?thesis by (simp add: to_uchar_def word_of_int_eq_iff)
qed

lemma rot_0: "word_rotr 0 (v::u8) = v" "word_rotl 0 (v::u8) = v"
  by (rule bit_eqI, simp add: bit_simps possible_bit_word)+

lemma smod_8: "0 \<le> k \<Longrightarrow> k \<le> 7 \<Longrightarrow> (k::int) smod 8 = k"
  by (simp add: signed_modulo_int_def sgn_if)

lemma rotateRight_rotr: "0 \<le> k \<Longrightarrow> k \<le> 7 \<Longrightarrow> rotateRight v k = Inr (word_rotr (nat k) v)"
proof -
  assume k: "0 \<le> k" "k \<le> 7"
  then have "nat (8 - k) = 8 - nat k" and "nat k < 8" by simp_all
  with k show ?thesis by (simp add: rotateRight_def smod_8 rotr_bits)
qed

lemma rotateLeft_rotl: "0 \<le> k \<Longrightarrow> k \<le> 7 \<Longrightarrow> rotateLeft v k = Inr (word_rotl (nat k) v)"
proof -
  assume k: "0 \<le> k" "k \<le> 7"
  then have "nat (8 - k) = 8 - nat k" and "nat k < 8" by simp_all
  with k show ?thesis by (simp add: rotateLeft_def smod_8 rotl_bits)
qed

lemma unat_and_7: "0 \<le> k \<Longrightarrow> k \<le> 7 \<Longrightarrow> unat ((word_of_int k :: u32) AND 7) = nat k"
proof -
  assume "0 \<le> k" "k \<le> 7"
  then have "k \<in> {0, 1, 2, 3, 4, 5, 6, 7}" by auto
  then show ?thesis by auto
qed

lemma brotate_left_rotl: "0 \<le> k \<Longrightarrow> k \<le> 7 \<Longrightarrow> brotate_left v (word_of_int k) = word_rotl (nat k) v"
  by (simp add: brotate_left_def unat_and_7 to_uchar_and_FF rotl_bits)

lemma brotate_left_3: "brotate_left v 3 = word_rotl 3 v"
  using brotate_left_rotl [of 3 v] by simp

text \<open>
  C4. For every byte \<open>v\<close> and every count \<open>k\<close> from 0 to 7, rotating right and then
  left by \<open>k\<close> gives \<open>v\<close> back, and so does rotating left and then right; the decoder's
  \<open>brotate_left\<close> undoes \<open>rotateRight\<close> as well, and the count 0 changes nothing.
\<close>

theorem rotation_round_trip:
  "0 \<le> k \<and> k \<le> 7 \<Longrightarrow>
     (\<exists>r l. rotateRight v k = Inr r \<and> rotateLeft r k = Inr v
          \<and> rotateLeft v k = Inr l \<and> rotateRight l k = Inr v
          \<and> brotate_left r (word_of_int k) = v)
     \<and> rotateRight v 0 = Inr v \<and> rotateLeft v 0 = Inr v"
  using rotateRight_rotr [of 0 v] rotateLeft_rotl [of 0 v]
  by (simp add: rotateRight_rotr rotateLeft_rotl brotate_left_rotl rot_0)

theorem rotation_round_trip_witness:
  "(0::int) \<le> 3 \<and> (3::int) \<le> 7 \<and> rotateRight 0x0F 3 = Inr 0xE1 \<and> rotateLeft 0xE1 3 = Inr 0x0F
     \<and> brotate_left 0xE1 3 = 0x0F"
  using rotation_round_trip [of 3 "0x0F"]
  by (simp add: rotateRight_def rotateLeft_def brotate_left_def to_uchar_def)

section \<open>Loops\<close>

text \<open>Unfolding a loop once, an invariant rule and a rule for its completion.\<close>

lemma for_loop_done: "\<not> i < n \<Longrightarrow> for_loop i n body s = Inr s"
  by (simp add: for_loop.simps)

lemma for_loop_step:
  "i < n \<Longrightarrow> body i s = Inr t \<Longrightarrow> for_loop i n body s = for_loop (i + 1) n body t"
  by (subst for_loop.simps) simp

lemma for_loop_fault: "i < n \<Longrightarrow> body i s = Inl e \<Longrightarrow> for_loop i n body s = Inl e"
  by (subst for_loop.simps) simp

lemma for_loop_inv:
  assumes "for_loop i n body s = Inr s'" and "P i s" and "i \<le> n"
    and "\<And>k t t'. i \<le> k \<Longrightarrow> k < n \<Longrightarrow> P k t \<Longrightarrow> body k t = Inr t' \<Longrightarrow> P (k + 1) t'"
  shows "P n s'"
  using assms
proof (induction i n body s rule: for_loop.induct)
  case (1 i n body s)
  show ?case
  proof (cases "i < n")
    case False
    with "1.prems" show ?thesis by (simp add: for_loop_done)
  next
    case True
    show ?thesis
    proof (cases "body i s")
      case (Inl e)
      with True "1.prems"(1) show ?thesis by (simp add: for_loop_fault)
    next
      case (Inr t)
      with True "1.prems"(1) have run: "for_loop (i + 1) n body t = Inr s'"
        by (simp add: for_loop_step)
      have Pt: "P (i + 1) t" using "1.prems"(4) [of i s t] True "1.prems"(2) Inr by simp
      show ?thesis
      proof (rule "1.IH" [OF True Inr run Pt])
        show "i + 1 \<le> n" using True by simp
      next
        fix k t1 t2
        assume "i + 1 \<le> k" "k < n" "P k t1" "body k t1 = Inr t2"
        then show "P (k + 1) t2" using "1.prems"(4) [of k t1 t2] by simp
      qed
    qed
  qed
qed

lemma for_loop_total:
  assumes "Q s"
    and "\<And>k t. i \<le> k \<Longrightarrow> k < n \<Longrightarrow> Q t \<Longrightarrow> \<exists>t'. body k t = Inr t' \<and> Q t'"
  shows "\<exists>s'. for_loop i n body s = Inr s'"
  using assms
proof (induction i n body s rule: for_loop.induct)
  case (1 i n body s)
  show ?case
  proof (cases "i < n")
    case False
    then show ?thesis by (simp add: for_loop_done)
  next
    case True
    from "1.prems"(2) [of i s] True "1.prems"(1)
    obtain t where t: "body i s = Inr t" "Q t" by auto
    have "\<exists>s'. for_loop (i + 1) n body t = Inr s'"
    proof (rule "1.IH" [OF True t(1) t(2)])
      fix k t1
      assume "i + 1 \<le> k" "k < n" "Q t1"
      then show "\<exists>t'. body k t1 = Inr t' \<and> Q t'" using "1.prems"(2) [of k t1] by simp
    qed
    with True t(1) show ?thesis by (simp add: for_loop_step)
  qed
qed

text \<open>A loop whose body stores one element per index.\<close>

lemma for_loop_update_result:
  assumes body: "\<And>k t. body k t =
        (if ok k (length t) then Inr (t[nat (off + k) := g k (t ! nat (off + k))])
         else Inl OutOfBounds)"
    and ok: "\<And>k l. ok k l \<Longrightarrow> 0 \<le> off + k \<and> off + k < int l"
    and run: "for_loop 0 n body s = Inr s'"
  shows "length s' = length s \<and>
     (\<forall>j < length s. s' ! j =
        (if off \<le> int j \<and> int j < off + n then g (int j - off) (s ! j) else s ! j))"
proof (cases "0 \<le> n")
  case False
  then have "s' = s" using run by (simp add: for_loop_done)
  with False show ?thesis by auto
next
  case True
  let ?P = "\<lambda>k t. length t = length s \<and>
     (\<forall>j < length s. t ! j =
        (if off \<le> int j \<and> int j < off + k then g (int j - off) (s ! j) else s ! j))"
  have "?P n s'"
  proof (rule for_loop_inv [where P = ?P, OF run _ True])
    show "?P 0 s" by auto
  next
    fix k t t'
    assume k: "0 \<le> k" "k < n" and P: "?P k t" and b: "body k t = Inr t'"
    from b have okk: "ok k (length t)" and t': "t' = t[nat (off + k) := g k (t ! nat (off + k))]"
      by (simp_all add: body split: if_splits)
    from ok [OF okk] have r: "0 \<le> off + k" "off + k < int (length t)" by simp_all
    have len: "length t' = length s" using P t' by simp
    have "t' ! j = (if off \<le> int j \<and> int j < off + (k + 1) then g (int j - off) (s ! j) else s ! j)"
      if j: "j < length s" for j
    proof (cases "j = nat (off + k)")
      case True
      then have e: "int j = off + k" using r by simp
      then have old: "t ! j = s ! j" using P j by simp
      have "t' ! j = g k (t ! j)" using t' True j P by simp
      with old e k show ?thesis by simp
    next
      case False
      then have ne: "int j \<noteq> off + k" using r by auto
      have "t' ! j = t ! j" using t' False by simp
      with P j ne show ?thesis by auto
    qed
    with len show "?P (k + 1) t'" by simp
  qed
  then show ?thesis by simp
qed

lemma for_loop_update_total:
  assumes body: "\<And>k t. body k t =
        (if ok k (length t) then Inr (t[nat (off + k) := g k (t ! nat (off + k))])
         else Inl OutOfBounds)"
    and ok: "\<And>k. 0 \<le> k \<Longrightarrow> k < n \<Longrightarrow> ok k (length s)"
  shows "\<exists>s'. for_loop 0 n body s = Inr s'"
proof (rule for_loop_total [where Q = "\<lambda>t. length t = length s"])
  show "length s = length s" by simp
next
  fix k and t :: "'a list"
  assume "0 \<le> k" "k < n" "length t = length s"
  then show "\<exists>t'. body k t = Inr t' \<and> length t' = length s"
    using ok [of k] by (simp add: body)
qed

lemma for_loop_update_ok:
  assumes body: "\<And>k t. body k t =
        (if ok k (length t) then Inr (t[nat (off + k) := g k (t ! nat (off + k))])
         else Inl OutOfBounds)"
    and run: "for_loop 0 n body s = Inr s'"
    and k: "0 \<le> k" "k < n"
  shows "ok k (length s)"
proof -
  let ?P = "\<lambda>m t. length t = length s \<and> (\<forall>k'. 0 \<le> k' \<and> k' < m \<longrightarrow> ok k' (length s))"
  have n: "0 \<le> n" using k by simp
  have "?P n s'"
  proof (rule for_loop_inv [where P = ?P, OF run _ n])
    show "?P 0 s" by auto
  next
    fix m t t'
    assume m: "0 \<le> m" "m < n" and P: "?P m t" and b: "body m t = Inr t'"
    from b have okm: "ok m (length t)" and t': "t' = t[nat (off + m) := g m (t ! nat (off + m))]"
      by (simp_all add: body split: if_splits)
    have "ok k' (length s)" if "0 \<le> k' \<and> k' < m + 1" for k'
    proof (cases "k' = m")
      case True
      with okm P show ?thesis by simp
    next
      case False
      with that P show ?thesis by simp
    qed
    with P t' show "?P (m + 1) t'" by simp
  qed
  with k show ?thesis by simp
qed

lemma for_loop_update_whole:
  assumes body: "\<And>k t. body k t =
        (if ok k (length t) then Inr (t[nat k := g k (t ! nat k)])
         else Inl OutOfBounds)"
    and okr: "\<And>k l. ok k l \<Longrightarrow> 0 \<le> k \<and> k < int l"
    and ok: "\<And>k. 0 \<le> k \<Longrightarrow> k < int (length s) \<Longrightarrow> ok k (length s)"
  shows "for_loop 0 (int (length s)) body s = Inr (map (\<lambda>j. g (int j) (s ! j)) [0 ..< length s])"
proof -
  have body': "\<And>k t. body k t =
        (if ok k (length t) then Inr (t[nat (0 + k) := g k (t ! nat (0 + k))])
         else Inl OutOfBounds)"
    by (simp add: body)
  obtain s' where run: "for_loop 0 (int (length s)) body s = Inr s'"
    using for_loop_update_total [where body = body and ok = ok and off = 0 and g = g, OF body' ok]
    by blast
  have okr': "\<And>k l. ok k l \<Longrightarrow> 0 \<le> 0 + k \<and> 0 + k < int l" using okr by simp
  from for_loop_update_result [where body = body and ok = ok and off = 0 and g = g, OF body' okr' run]
  have r: "length s' = length s" "\<forall>j<length s. s' ! j = g (int j) (s ! j)"
    by simp_all
  have "s' = map (\<lambda>j. g (int j) (s ! j)) [0 ..< length s]"
    by (rule nth_equalityI) (simp_all add: r)
  with run show ?thesis by simp
qed

section \<open>The whole-buffer loops in closed form\<close>

lemma bxor_xor: "bxor a b = a XOR b"
  by (rule bit_eqI) (simp add: bxor_def to_uchar_def bit_simps)

lemma xor_imRand_whole:
  assumes "dataSize = int (length img)" and "length imRand = length img"
  shows "xor_imRand img imRand dataSize = Inr (map2 (XOR) img imRand)"
proof -
  have "xor_imRand img imRand dataSize
      = Inr (map (\<lambda>j. bxor (img ! j) (imRand ! nat (int j))) [0 ..< length img])"
    unfolding xor_imRand_def assms(1)
    by (rule for_loop_update_whole
          [where ok = "\<lambda>k l. 0 \<le> k \<and> k < int l \<and> in_range imRand k"
             and g = "\<lambda>k old. bxor old (imRand ! nat k)"])
       (auto simp add: in_range_def assms(2))
  also have "map (\<lambda>j. bxor (img ! j) (imRand ! nat (int j))) [0 ..< length img]
      = map2 (XOR) img imRand"
    by (rule nth_equalityI) (simp_all add: assms(2) bxor_xor)
  finally show ?thesis .
qed

lemma rotar_izquierda_whole:
  assumes "dataSize = int (length img)"
  shows "rotar_izquierda img dataSize = Inr (map (word_rotl 3) img)"
proof -
  have "rotar_izquierda img dataSize
      = Inr (map (\<lambda>j. brotate_left (img ! j) 3) [0 ..< length img])"
    unfolding rotar_izquierda_def assms(1)
    by (rule for_loop_update_whole
          [where ok = "\<lambda>k l. 0 \<le> k \<and> k < int l" and g = "\<lambda>k old. brotate_left old 3"])
       (auto simp add: in_range_def)
  also have "map (\<lambda>j. brotate_left (img ! j) 3) [0 ..< length img] = map (word_rotl 3) img"
    by (rule nth_equalityI) (simp_all add: brotate_left_3)
  finally show ?thesis .
qed

lemma paso_xor_whole:
  assumes "totalBytes = int (length a)" and "length b = length a"
  shows "paso_xor a b totalBytes = Inr (map2 (XOR) a b)"
proof -
  define s0 :: "u8 list" where "s0 = replicate (length a) 0"
  have len: "length s0 = length a" by (simp add: s0_def)
  have "for_loop 0 (int (length s0))
          (\<lambda>i out. if in_range out i \<and> in_range a i \<and> in_range b i
                    then Inr (out[nat i := to_uchar (uint (a ! nat i) XOR uint (b ! nat i))])
                    else Inl OutOfBounds) s0
      = Inr (map (\<lambda>j. bxor (a ! nat (int j)) (b ! nat (int j))) [0 ..< length s0])"
    by (rule for_loop_update_whole
          [where ok = "\<lambda>k l. 0 \<le> k \<and> k < int l \<and> in_range a k \<and> in_range b k"
             and g = "\<lambda>k old. bxor (a ! nat k) (b ! nat k)"])
       (auto simp add: in_range_def assms(2) bxor_def len)
  moreover have "map (\<lambda>j. bxor (a ! nat (int j)) (b ! nat (int j))) [0 ..< length s0]
      = map2 (XOR) a b"
    by (rule nth_equalityI) (simp_all add: assms(2) bxor_xor len)
  ultimately show ?thesis
    by (simp add: paso_xor_def assms(1) len s0_def [symmetric])
qed

lemma paso_rotar_whole:
  assumes "totalBytes = int (length p)"
  shows "paso_rotar p totalBytes = Inr (map (word_rotr 3) p)"
proof -
  define s0 :: "u8 list" where "s0 = replicate (length p) 0"
  have len: "length s0 = length p" by (simp add: s0_def)
  have r: "to_uchar (drop_bit 3 (uint v) OR push_bit (8 - 3) (uint v)) = word_rotr 3 v" for v :: u8
    using rotr_bits [of 3 v] by simp
  have "for_loop 0 (int (length s0))
          (\<lambda>i out. if in_range out i \<and> in_range p i
                    then Inr (out[nat i := to_uchar (drop_bit 3 (uint (p ! nat i))
                                                      OR push_bit (8 - 3) (uint (p ! nat i)))])
                    else Inl OutOfBounds) s0
      = Inr (map (\<lambda>j. word_rotr 3 (p ! nat (int j))) [0 ..< length s0])"
    unfolding r
    by (rule for_loop_update_whole
          [where ok = "\<lambda>k l. 0 \<le> k \<and> k < int l \<and> in_range p k"
             and g = "\<lambda>k old. word_rotr 3 (p ! nat k)"])
       (auto simp add: in_range_def len)
  moreover have "map (\<lambda>j. word_rotr 3 (p ! nat (int j))) [0 ..< length s0] = map (word_rotr 3) p"
    by (rule nth_equalityI) (simp_all add: len)
  ultimately show ?thesis
    by (simp add: paso_rotar_def assms(1) len s0_def [symmetric])
qed

section \<open>Restoring a masked region\<close>

lemma desenmascarar_result:
  assumes "desenmascarar img msk S seed totalBytes = Inr img'"
  shows "length img' = length img \<and>
     (\<forall>j < length img. img' ! j =
        (if seed \<le> int j \<and> int j < seed + totalBytes
         then ucast ((S ! nat (int j - seed) - ucast (msk ! nat (int j - seed))) AND 0xFF)
         else img ! j))"
proof (cases "totalBytes \<le> 0")
  case True
  with assms have "img' = img" by (simp add: desenmascarar_def)
  with True show ?thesis by auto
next
  case False
  with assms have run: "for_loop 0 totalBytes
             (\<lambda>k img. if in_range S k \<and> in_range msk k \<and> in_range img (seed + k)
                       then Inr (img[nat (seed + k) :=
                                   ucast ((S ! nat k - ucast (msk ! nat k)) AND 0xFF)])
                       else Inl OutOfBounds) img = Inr img'"
    by (simp add: desenmascarar_def)
  show ?thesis
    by (rule for_loop_update_result
          [where ok = "\<lambda>k l. in_range S k \<and> in_range msk k \<and> 0 \<le> seed + k \<and> seed + k < int l"
             and g = "\<lambda>k old. ucast ((S ! nat k - ucast (msk ! nat k)) AND 0xFF)"
             and off = seed, OF _ _ run])
       (simp_all add: in_range_def)
qed

lemma desenmascarar_bounds:
  assumes "desenmascarar img msk S seed totalBytes = Inr img'" and "0 \<le> k" and "k < totalBytes"
  shows "in_range S k \<and> in_range msk k \<and> in_range img (seed + k)"
proof -
  from assms have run: "for_loop 0 totalBytes
             (\<lambda>k img. if in_range S k \<and> in_range msk k \<and> in_range img (seed + k)
                       then Inr (img[nat (seed + k) :=
                                   ucast ((S ! nat k - ucast (msk ! nat k)) AND 0xFF)])
                       else Inl OutOfBounds) img = Inr img'"
    by (simp add: desenmascarar_def split: if_splits)
  have "in_range S k \<and> in_range msk k \<and> 0 \<le> seed + k \<and> seed + k < int (length img)"
    by (rule for_loop_update_ok
          [where ok = "\<lambda>k l. in_range S k \<and> in_range msk k \<and> 0 \<le> seed + k \<and> seed + k < int l"
             and g = "\<lambda>k old. ucast ((S ! nat k - ucast (msk ! nat k)) AND 0xFF)"
             and off = seed, OF _ run assms(2) assms(3)])
       (simp add: in_range_def)
  then show ?thesis by (simp add: in_range_def)
qed

lemma desenmascarar_total:
  assumes "0 \<le> seed" and "seed + totalBytes \<le> int (length img)"
    and "totalBytes \<le> int (length S)" and "totalBytes \<le> int (length msk)"
  shows "\<exists>img'. desenmascarar img msk S seed totalBytes = Inr img'"
proof (cases "totalBytes \<le> 0")
  case True
  then show ?thesis by (simp add: desenmascarar_def)
next
  case False
  have "\<exists>img'. for_loop 0 totalBytes
             (\<lambda>k img. if in_range S k \<and> in_range msk k \<and> in_range img (seed + k)
                       then Inr (img[nat (seed + k) :=
                                   ucast ((S ! nat k - ucast (msk ! nat k)) AND 0xFF)])
                       else Inl OutOfBounds) img = Inr img'"
    by (rule for_loop_update_total
          [where ok = "\<lambda>k l. in_range S k \<and> in_range msk k \<and> 0 \<le> seed + k \<and> seed + k < int l"
             and g = "\<lambda>k old. ucast ((S ! nat k - ucast (msk ! nat k)) AND 0xFF)"
             and off = seed])
       (use assms in \<open>auto simp add: in_range_def\<close>)
  with False show ?thesis by (simp add: desenmascarar_def)
qed

lemma restored_byte:
  "uint (ucast ((s - ucast m) AND 0xFF :: u32) :: u8) = (uint s - uint m) mod 256"
  for s :: u32 and m :: u8
proof -
  have "(0xFF::u32) = mask 8" by (simp add: mask_eq_exp_minus_1)
  then have a: "(s - ucast m) AND 0xFF = take_bit 8 (s - ucast m)"
    by (simp add: take_bit_eq_mask)
  have "uint (ucast (take_bit 8 (s - ucast m) :: u32) :: u8) = take_bit 8 (uint (s - ucast m))"
    by (simp add: unsigned_ucast_eq unsigned_take_bit_eq)
  also have "\<dots> = uint (s - ucast m) mod 256"
    by (simp add: take_bit_eq_mod)
  also have "uint (s - ucast m) = (uint s - uint (ucast m :: u32)) mod 2 ^ 32"
    by (simp add: uint_word_ariths)
  also have "uint (ucast m :: u32) = uint m"
    by (rule uint_up_ucast) (simp add: is_up)
  also have "(uint s - uint m) mod 2 ^ 32 mod 256 = (uint s - uint m) mod 256"
    by (simp add: mod_mod_cancel)
  finally show ?thesis using a by simp
qed

text \<open>
  C2. After \<open>desenmascarar\<close>, for every index \<open>k\<close> of the region the byte at
  \<open>seed + k\<close> is the recorded value minus the byte of the mask, modulo 256: the
  subtraction wraps around and is never clamped. With the record \<open>0x02\<close> and the mask
  byte \<open>0xFF\<close> the restored byte is \<open>0x03\<close>.
\<close>

theorem desenmascarar_mod_256:
  assumes "desenmascarar img msk S seed totalBytes = Inr img'"
    and "0 \<le> k" and "k < totalBytes"
  shows "uint (img' ! nat (seed + k)) = (uint (S ! nat k) - uint (msk ! nat k)) mod 256
     \<and> (S ! nat k = 0x02 \<and> msk ! nat k = 0xFF \<longrightarrow> img' ! nat (seed + k) = 0x03)"
proof -
  from desenmascarar_bounds [OF assms] have b: "0 \<le> seed + k" "seed + k < int (length img)"
    by (simp_all add: in_range_def)
  then have j: "nat (seed + k) < length img" "int (nat (seed + k)) = seed + k" by simp_all
  from desenmascarar_result [OF assms(1)] j assms(2,3)
  have v: "img' ! nat (seed + k) = ucast ((S ! nat k - ucast (msk ! nat k)) AND 0xFF)"
    by simp
  then have "uint (img' ! nat (seed + k)) = (uint (S ! nat k) - uint (msk ! nat k)) mod 256"
    by (simp only: restored_byte)
  moreover have "img' ! nat (seed + k) = 0x03" if "S ! nat k = 0x02 \<and> msk ! nat k = 0xFF"
    using v that by simp
  ultimately show ?thesis by blast
qed

theorem desenmascarar_mod_256_witness:
  "desenmascarar [0x10, 0x20] [0xFF] [0x02] 1 1 = Inr [0x10, 0x03]
     \<and> uint ([0x10, 0x03 :: u8] ! nat (1 + 0)) = (uint (0x02 :: u32) - uint (0xFF :: u8)) mod 256"
proof -
  have run: "desenmascarar [0x10, 0x20] [0xFF] [0x02] 1 1 = Inr [0x10, 0x03]"
    by (simp add: desenmascarar_def for_loop.simps in_range_def)
  from desenmascarar_mod_256 [OF run, of 0] run show ?thesis by simp
qed

text \<open>
  C9. \<open>desenmascarar\<close> keeps the size of the buffer and every byte at an index
  outside the region from \<open>seed\<close> to \<open>seed + totalBytes\<close>.
\<close>

theorem desenmascarar_frame:
  assumes "desenmascarar img msk S seed totalBytes = Inr img'"
  shows "length img' = length img
     \<and> (\<forall>j < length img. \<not> (seed \<le> int j \<and> int j < seed + totalBytes) \<longrightarrow> img' ! j = img ! j)"
  using desenmascarar_result [OF assms] by simp

theorem desenmascarar_frame_witness:
  "desenmascarar [0x10, 0x20, 0x30, 0x40] [0x01, 0x01] [0x05, 0x06] 1 2 = Inr [0x10, 0x04, 0x05, 0x40]
     \<and> length [0x10, 0x04, 0x05, 0x40 :: u8] = length [0x10, 0x20, 0x30, 0x40 :: u8]
     \<and> [0x10, 0x04, 0x05, 0x40 :: u8] ! 0 = [0x10, 0x20, 0x30, 0x40] ! 0
     \<and> [0x10, 0x04, 0x05, 0x40 :: u8] ! 3 = [0x10, 0x20, 0x30, 0x40] ! 3"
proof -
  have run: "desenmascarar [0x10, 0x20, 0x30, 0x40] [0x01, 0x01] [0x05, 0x06] 1 2
      = Inr [0x10, 0x04, 0x05, 0x40]"
    by (simp add: desenmascarar_def for_loop.simps in_range_def)
  from desenmascarar_frame [OF run] run show ?thesis by simp
qed

section \<open>Reading a mask file\<close>

lemma list3_induct [case_names Nil One Two Three]:
  assumes "P []" and "\<And>a. P [a]" and "\<And>a b. P [a, b]"
    and "\<And>a b c xs. P xs \<Longrightarrow> P (a # b # c # xs)"
  shows "P xs"
proof (induction "length xs" arbitrary: xs rule: less_induct)
  case less
  show ?case
  proof (cases xs)
    case Nil
    with assms(1) show ?thesis by simp
  next
    case c1: (Cons a xs1)
    show ?thesis
    proof (cases xs1)
      case Nil
      with c1 assms(2) show ?thesis by simp
    next
      case c2: (Cons b xs2)
      show ?thesis
      proof (cases xs2)
        case Nil
        with c1 c2 assms(3) show ?thesis by simp
      next
        case c3: (Cons c xs3)
        have "P xs3" using less [of xs3] c1 c2 c3 by simp
        with c1 c2 c3 assms(4) show ?thesis by simp
      qed
    qed
  qed
qed

lemma extract_int_Num:
  "INT_MIN \<le> v \<Longrightarrow> v \<le> INT_MAX \<Longrightarrow>
     extract_int \<lparr>rest = Num v # ts, failbit = False\<rparr> x = (\<lparr>rest = ts, failbit = False\<rparr>, v)"
  by (simp add: extract_int_def)

lemma extract_int_eof:
  "extract_int \<lparr>rest = [], failbit = False\<rparr> x = (\<lparr>rest = [], failbit = True\<rparr>, x)"
  by (simp add: extract_int_def)

lemma extract_int_failed: "failbit f \<Longrightarrow> extract_int f x = (f, x)"
  by (simp add: extract_int_def)

lemma extract_uint_Num:
  "INT_MIN \<le> v \<Longrightarrow> v \<le> INT_MAX \<Longrightarrow>
     extract_uint \<lparr>rest = Num v # ts, failbit = False\<rparr> x
       = (\<lparr>rest = ts, failbit = False\<rparr>, word_of_int v)"
  by (simp add: extract_uint_def INT_MIN_def INT_MAX_def UINT_MAX_def)

lemma count_triplets_ints:
  "\<forall>v \<in> set xs. INT_MIN \<le> v \<and> v \<le> INT_MAX \<Longrightarrow>
     snd (count_triplets \<lparr>rest = map Num xs, failbit = False\<rparr> n) = n + int (length xs div 3)"
proof (induction xs arbitrary: n rule: list3_induct)
  case Nil
  show ?case
    by (subst count_triplets.simps) (simp add: extract_int_eof extract_int_failed)
next
  case (One a)
  then show ?case
    by (subst count_triplets.simps) (simp add: extract_int_Num extract_int_eof extract_int_failed)
next
  case (Two a b)
  then show ?case
    by (subst count_triplets.simps) (simp add: extract_int_Num extract_int_eof extract_int_failed)
next
  case (Three a b c xs)
  then have "snd (count_triplets \<lparr>rest = map Num xs, failbit = False\<rparr> (n + 1))
      = n + 1 + int (length xs div 3)"
    by simp
  with Three.prems show ?case
    by (subst count_triplets.simps) (simp add: extract_int_Num)
qed

lemma count_triplets_ge: "n \<le> snd (count_triplets f n)"
proof (induction f n rule: count_triplets.induct)
  case (1 f n)
  obtain f1 r where e1: "extract_int f 0 = (f1, r)" by (cases "extract_int f 0")
  obtain f2 g where e2: "extract_int f1 0 = (f2, g)" by (cases "extract_int f1 0")
  obtain f3 b where e3: "extract_int f2 0 = (f3, b)" by (cases "extract_int f2 0")
  show ?case
  proof (cases "failbit f3")
    case True
    with e1 e2 e3 show ?thesis by (subst count_triplets.simps) simp
  next
    case False
    from "1.IH" [OF e1 [symmetric] refl e2 [symmetric] refl e3 [symmetric] refl False]
    have "n + 1 \<le> snd (count_triplets f3 (n + 1))" .
    with e1 e2 e3 False show ?thesis by (subst count_triplets.simps) simp
  qed
qed

lemma take3_update:
  "k + 2 < length S \<Longrightarrow>
     take (k + 3) (S[k := a, k + 1 := b, k + 2 := c]) = take k S @ [a, b, c]"
  by (rule nth_equalityI) (auto simp add: nth_append nth_list_update less_Suc_eq numeral_3_eq_3)

lemma read_S_done: "n * 3 \<le> i \<Longrightarrow> read_S i n st = Inr st"
  by (subst read_S.simps) simp

lemma read_RGB_done: "n * 3 \<le> i \<Longrightarrow> read_RGB i n st = Inr st"
  by (subst read_RGB.simps) simp

lemma read_S_ints:
  assumes "\<forall>v \<in> set ys. INT_MIN \<le> v \<and> v \<le> INT_MAX"
    and "length S = 3 * n" and "m \<le> n" and "3 * (n - m) \<le> length ys"
  shows "\<exists>f'. read_S (int (3 * m)) (int n) (\<lparr>rest = map Num ys, failbit = False\<rparr>, S)
      = Inr (f', take (3 * m) S @ map word_of_int (take (3 * (n - m)) ys))"
  using assms
proof (induction ys arbitrary: m S rule: list3_induct)
  case (Three a b c ys)
  show ?case
  proof (cases "m = n")
    case True
    with Three.prems show ?thesis by (subst read_S.simps) simp
  next
    case False
    with Three.prems have lt: "m < n" by simp
    let ?S = "S[3 * m := word_of_int a, 3 * m + 1 := word_of_int b, 3 * m + 2 := word_of_int c]"
    have r: "int (3 * m) < int n * 3" "in_range S (int (3 * m))"
      "in_range S (int (3 * m) + 1)" "in_range S (int (3 * m) + 2)"
      using lt Three.prems(2) by (simp_all add: in_range_def)
    have n: "nat (int (3 * m)) = 3 * m" "nat (int (3 * m) + 1) = 3 * m + 1"
      "nat (int (3 * m) + 2) = 3 * m + 2" "int (3 * m) + 3 = int (3 * (m + 1))"
      by simp_all
    have step: "read_S (int (3 * m)) (int n) (\<lparr>rest = map Num (a # b # c # ys), failbit = False\<rparr>, S)
        = read_S (int (3 * (m + 1))) (int n) (\<lparr>rest = map Num ys, failbit = False\<rparr>, ?S)"
      using Three.prems(1) r
      by (subst read_S.simps) (simp add: extract_uint_Num n del: of_nat_mult of_nat_add)
    have "\<exists>f'. read_S (int (3 * (m + 1))) (int n) (\<lparr>rest = map Num ys, failbit = False\<rparr>, ?S)
        = Inr (f', take (3 * (m + 1)) ?S @ map word_of_int (take (3 * (n - (m + 1))) ys))"
      using Three.prems lt by (intro Three.IH) simp_all
    moreover have "take (3 * (m + 1)) ?S = take (3 * m) S @ [word_of_int a, word_of_int b, word_of_int c]"
    proof -
      have "take (3 * m + 3) ?S = take (3 * m) S @ [word_of_int a, word_of_int b, word_of_int c]"
        using lt Three.prems(2) by (intro take3_update) simp
      moreover have "3 * (m + 1) = 3 * m + 3" by simp
      ultimately show ?thesis by (simp only:)
    qed
    moreover have "take (3 * (n - m)) (a # b # c # ys) = a # b # c # take (3 * (n - (m + 1))) ys"
    proof -
      have "3 * (n - m) = Suc (Suc (Suc (3 * (n - (m + 1)))))" using lt by simp
      then show ?thesis by simp
    qed
    ultimately show ?thesis using step by simp
  qed
next
  case Nil
  then have "m = n" by simp
  with Nil show ?case by (simp add: read_S_done)
next
  case (One a)
  then have "m = n" by simp
  with One show ?case by (simp add: read_S_done)
next
  case (Two a b)
  then have "m = n" by simp
  with Two show ?case by (simp add: read_S_done)
qed

lemma read_RGB_ints:
  assumes "\<forall>v \<in> set ys. INT_MIN \<le> v \<and> v \<le> INT_MAX"
    and "length S = 3 * n" and "m \<le> n" and "3 * (n - m) \<le> length ys"
  shows "\<exists>f'. read_RGB (int (3 * m)) (int n) (\<lparr>rest = map Num ys, failbit = False\<rparr>, S)
      = Inr (f', take (3 * m) S @ map word_of_int (take (3 * (n - m)) ys))"
  using assms
proof (induction ys arbitrary: m S rule: list3_induct)
  case (Three a b c ys)
  show ?case
  proof (cases "m = n")
    case True
    with Three.prems show ?thesis by (subst read_RGB.simps) simp
  next
    case False
    with Three.prems have lt: "m < n" by simp
    let ?S = "S[3 * m := word_of_int a, 3 * m + 1 := word_of_int b, 3 * m + 2 := word_of_int c]"
    have r: "int (3 * m) < int n * 3" "in_range S (int (3 * m))"
      "in_range S (int (3 * m) + 1)" "in_range S (int (3 * m) + 2)"
      using lt Three.prems(2) by (simp_all add: in_range_def)
    have n: "nat (int (3 * m)) = 3 * m" "nat (int (3 * m) + 1) = 3 * m + 1"
      "nat (int (3 * m) + 2) = 3 * m + 2" "int (3 * m) + 3 = int (3 * (m + 1))"
      by simp_all
    have step: "read_RGB (int (3 * m)) (int n) (\<lparr>rest = map Num (a # b # c # ys), failbit = False\<rparr>, S)
        = read_RGB (int (3 * (m + 1))) (int n) (\<lparr>rest = map Num ys, failbit = False\<rparr>, ?S)"
      using Three.prems(1) r
      by (subst read_RGB.simps) (simp add: extract_int_Num n del: of_nat_mult of_nat_add)
    have "\<exists>f'. read_RGB (int (3 * (m + 1))) (int n) (\<lparr>rest = map Num ys, failbit = False\<rparr>, ?S)
        = Inr (f', take (3 * (m + 1)) ?S @ map word_of_int (take (3 * (n - (m + 1))) ys))"
      using Three.prems lt by (intro Three.IH) simp_all
    moreover have "take (3 * (m + 1)) ?S = take (3 * m) S @ [word_of_int a, word_of_int b, word_of_int c]"
    proof -
      have "take (3 * m + 3) ?S = take (3 * m) S @ [word_of_int a, word_of_int b, word_of_int c]"
        using lt Three.prems(2) by (intro take3_update) simp
      moreover have "3 * (m + 1) = 3 * m + 3" by simp
      ultimately show ?thesis by (simp only:)
    qed
    moreover have "take (3 * (n - m)) (a # b # c # ys) = a # b # c # take (3 * (n - (m + 1))) ys"
    proof -
      have "3 * (n - m) = Suc (Suc (Suc (3 * (n - (m + 1)))))" using lt by simp
      then show ?thesis by simp
    qed
    ultimately show ?thesis using step by simp
  qed
next
  case Nil
  then have "m = n" by simp
  with Nil show ?case by (simp add: read_RGB_done)
next
  case (One a)
  then have "m = n" by simp
  with One show ?case by (simp add: read_RGB_done)
next
  case (Two a b)
  then have "m = n" by simp
  with Two show ?case by (simp add: read_RGB_done)
qed

lemma loadSeedMasking_ints:
  assumes "\<forall>v \<in> set (seed # comps). INT_MIN \<le> v \<and> v \<le> INT_MAX"
  shows "loadSeedMasking (Some (map Num (seed # comps))) seed0
      = Inr (Some (map word_of_int (take (3 * (length comps div 3)) comps), seed,
                   int (length comps div 3)))"
proof -
  let ?n = "length comps div 3"
  obtain f1 n1 where c: "count_triplets \<lparr>rest = map Num comps, failbit = False\<rparr> 0 = (f1, n1)"
    by (cases "count_triplets \<lparr>rest = map Num comps, failbit = False\<rparr> 0")
  have n1: "n1 = int ?n" using count_triplets_ints [of comps 0] assms c by simp
  have len: "length (replicate (3 * ?n) (0::u32)) = 3 * ?n" by simp
  have "\<exists>f'. read_S (int (3 * 0)) (int ?n)
           (\<lparr>rest = map Num comps, failbit = False\<rparr>, replicate (3 * ?n) (0::u32))
      = Inr (f', take (3 * 0) (replicate (3 * ?n) (0::u32))
                 @ map word_of_int (take (3 * (?n - 0)) comps))"
    using assms by (intro read_S_ints) simp_all
  then obtain f' where r: "read_S 0 (int ?n)
           (\<lparr>rest = map Num comps, failbit = False\<rparr>, replicate (3 * ?n) (0::u32))
      = Inr (f', map word_of_int (take (3 * ?n) comps))"
    by auto
  have nat: "nat (int ?n * 3) = 3 * ?n" by simp
  show ?thesis
    using assms c r
    by (simp add: loadSeedMasking_def extract_int_Num n1 nat del: of_nat_mult)
qed

lemma loadSeedMasking_base_ints:
  assumes "\<forall>v \<in> set (seed # comps). INT_MIN \<le> v \<and> v \<le> INT_MAX"
  shows "loadSeedMasking_base (Some (map Num (seed # comps))) seed0
      = Inr (Some (map word_of_int (take (3 * (length comps div 3)) comps), seed,
                   int (length comps div 3)))"
proof -
  let ?n = "length comps div 3"
  obtain f1 n1 where c: "count_triplets \<lparr>rest = map Num comps, failbit = False\<rparr> 0 = (f1, n1)"
    by (cases "count_triplets \<lparr>rest = map Num comps, failbit = False\<rparr> 0")
  have n1: "n1 = int ?n" using count_triplets_ints [of comps 0] assms c by simp
  have "\<exists>f'. read_RGB (int (3 * 0)) (int ?n)
           (\<lparr>rest = map Num comps, failbit = False\<rparr>, replicate (3 * ?n) (0::u32))
      = Inr (f', take (3 * 0) (replicate (3 * ?n) (0::u32))
                 @ map word_of_int (take (3 * (?n - 0)) comps))"
    using assms by (intro read_RGB_ints) simp_all
  then obtain f' where r: "read_RGB 0 (int ?n)
           (\<lparr>rest = map Num comps, failbit = False\<rparr>, replicate (3 * ?n) (0::u32))
      = Inr (f', map word_of_int (take (3 * ?n) comps))"
    by auto
  have nat: "nat (int ?n * 3) = 3 * ?n" by simp
  show ?thesis
    using assms c r
    by (simp add: loadSeedMasking_base_def extract_int_Num n1 nat del: of_nat_mult)
qed

text \<open>
  C7. A mask file that is a sequence of integers, each in the range of \<^verbatim>\<open>int\<close>, is
  read as its seed followed by as many complete triplets as the file holds: the loader
  returns the first \<open>3 * (length comps div 3)\<close> components in order and the count
  \<open>length comps div 3\<close>; one or two integers left over are dropped without an error.
  Both loaders, the decoder's and the base program's, do so.
\<close>

theorem mask_file_greedy:
  assumes "\<forall>v \<in> set (seed # comps). INT_MIN \<le> v \<and> v \<le> INT_MAX"
  shows "loadSeedMasking (Some (map Num (seed # comps))) seed0
      = Inr (Some (map word_of_int (take (3 * (length comps div 3)) comps), seed,
                   int (length comps div 3)))
    \<and> loadSeedMasking_base (Some (map Num (seed # comps))) seed0
      = Inr (Some (map word_of_int (take (3 * (length comps div 3)) comps), seed,
                   int (length comps div 3)))"
  using loadSeedMasking_ints [OF assms] loadSeedMasking_base_ints [OF assms] by simp

theorem mask_file_greedy_witness:
  "loadSeedMasking (Some [Num 5, Num 10, Num 20, Num 30, Num 40, Num 50, Num 60, Num 70]) 0
       = Inr (Some ([10, 20, 30, 40, 50, 60], 5, 2))
   \<and> loadSeedMasking_base (Some [Num 5, Num 10, Num 20, Num 30, Num 40, Num 50, Num 60, Num 70]) 0
       = Inr (Some ([10, 20, 30, 40, 50, 60], 5, 2))"
proof -
  have h: "\<forall>v \<in> set [5, 10, 20, 30, 40, 50, 60, 70 :: int]. INT_MIN \<le> v \<and> v \<le> INT_MAX"
    by (simp add: INT_MIN_def INT_MAX_def)
  from mask_file_greedy [OF h, of 0] show ?thesis by simp
qed

lemma read_S_total:
  "0 \<le> i \<Longrightarrow> i mod 3 = 0 \<Longrightarrow> int (length S) = n * 3 \<Longrightarrow>
     \<exists>f' S'. read_S i n (f, S) = Inr (f', S') \<and> length S' = length S"
proof (induction "nat (n * 3 - i)" arbitrary: i f S rule: less_induct)
  case less
  show ?case
  proof (cases "i < n * 3")
    case False
    then show ?thesis by (simp add: read_S_done)
  next
    case True
    with less.prems have i3: "i + 3 \<le> n * 3" by presburger
    with less.prems have r: "in_range S i" "in_range S (i + 1)" "in_range S (i + 2)"
      by (simp_all add: in_range_def)
    obtain f1 a where e1: "extract_uint f (S ! nat i) = (f1, a)"
      by (cases "extract_uint f (S ! nat i)")
    obtain f2 b where e2: "extract_uint f1 (S ! nat (i + 1)) = (f2, b)"
      by (cases "extract_uint f1 (S ! nat (i + 1))")
    obtain f3 c where e3: "extract_uint f2 (S ! nat (i + 2)) = (f3, c)"
      by (cases "extract_uint f2 (S ! nat (i + 2))")
    let ?S = "S[nat i := a, nat (i + 1) := b, nat (i + 2) := c]"
    have step: "read_S i n (f, S) = read_S (i + 3) n (f3, ?S)"
      using True r e1 e2 e3 by (subst read_S.simps) simp
    have "\<exists>f' S'. read_S (i + 3) n (f3, ?S) = Inr (f', S') \<and> length S' = length ?S"
    proof (rule less.hyps)
      show "nat (n * 3 - (i + 3)) < nat (n * 3 - i)" using True by simp
      show "0 \<le> i + 3" using less.prems by simp
      show "(i + 3) mod 3 = 0" using less.prems by presburger
      show "int (length ?S) = n * 3" using less.prems by simp
    qed
    with step show ?thesis by simp
  qed
qed

lemma loadSeedMasking_total:
  "\<exists>S seed n. loadSeedMasking (Some ts) seed0 = Inr (Some (S, seed, n))
      \<and> 0 \<le> n \<and> int (length S) = n * 3"
proof -
  obtain f1 s1 where e1: "extract_int \<lparr>rest = ts, failbit = False\<rparr> seed0 = (f1, s1)"
    by (cases "extract_int \<lparr>rest = ts, failbit = False\<rparr> seed0")
  obtain f2 n where c: "count_triplets f1 0 = (f2, n)"
    by (cases "count_triplets f1 0")
  obtain f3 s3 where e3: "extract_int \<lparr>rest = ts, failbit = False\<rparr> s1 = (f3, s3)"
    by (cases "extract_int \<lparr>rest = ts, failbit = False\<rparr> s1")
  have n: "0 \<le> n" using count_triplets_ge [of 0 f1] c by simp
  then have len: "int (length (replicate (nat (n * 3)) (0::u32))) = n * 3" by simp
  from read_S_total [of 0 "replicate (nat (n * 3)) (0::u32)" n f3] len
  obtain f' S' where r: "read_S 0 n (f3, replicate (nat (n * 3)) 0) = Inr (f', S')"
    and l: "length S' = length (replicate (nat (n * 3)) (0::u32))"
    by auto
  have "loadSeedMasking (Some ts) seed0 = Inr (Some (S', s3, n))"
    using e1 c e3 r by (simp add: loadSeedMasking_def)
  moreover have "int (length S') = n * 3" using l len by simp
  ultimately show ?thesis using n by blast
qed

lemma replicate_3: "replicate 3 x = [x, x, x]"
  by (simp add: numeral_3_eq_3)

text \<open>
  C8, as stated, fails: the file \<^verbatim>\<open>0 300 0 0\<close> is loaded, and the record holds the
  component 300.
\<close>

theorem mask_file_range_counterexample:
  "loadSeedMasking (Some [Num 0, Num 300, Num 0, Num 0]) 0 = Inr (Some ([300, 0, 0], 0, 1))
     \<and> \<not> uint (300 :: u32) \<le> 255"
  by (simp add: loadSeedMasking_def extract_int_def extract_uint_def count_triplets.simps
        read_S.simps in_range_def INT_MIN_def INT_MAX_def UINT_MAX_def replicate_3)

text \<open>
  C8, amended. The loader checks no range: every file that can be opened gives a record
  of \<open>3 * n_pixels\<close> components, and a file of integers in the range of \<^verbatim>\<open>int\<close> gives
  the record that holds every component of its complete triplets as it is, modulo
  \<open>2^32\<close>, whether or not it lies between 0 and 255.
\<close>

theorem mask_file_no_range_check:
  "(\<exists>S seed n. loadSeedMasking (Some ts) seed0 = Inr (Some (S, seed, n))
        \<and> int (length S) = n * 3)
   \<and> ((\<forall>v \<in> set (seed # comps). INT_MIN \<le> v \<and> v \<le> INT_MAX) \<longrightarrow>
        (\<exists>S n. loadSeedMasking (Some (map Num (seed # comps))) seed0 = Inr (Some (S, seed, n))
           \<and> (\<forall>k < 3 * (length comps div 3). S ! k = word_of_int (comps ! k))))"
proof -
  have "\<exists>S n. loadSeedMasking (Some (map Num (seed # comps))) seed0 = Inr (Some (S, seed, n))
           \<and> (\<forall>k < 3 * (length comps div 3). S ! k = word_of_int (comps ! k))"
    if h: "\<forall>v \<in> set (seed # comps). INT_MIN \<le> v \<and> v \<le> INT_MAX"
  proof -
    have "3 * (length comps div 3) \<le> length comps" by simp
    then have "\<forall>k < 3 * (length comps div 3).
        map word_of_int (take (3 * (length comps div 3)) comps) ! k
          = (word_of_int (comps ! k) :: u32)"
      by simp
    with loadSeedMasking_ints [OF h, of seed0] show ?thesis by blast
  qed
  with loadSeedMasking_total [of ts seed0] show ?thesis by blast
qed

theorem mask_file_no_range_check_witness:
  "loadSeedMasking (Some [Num 7, Num 256, Num 1, Num (- 2), Num 1000]) 0
       = Inr (Some ([256, 1, 4294967294], 7, 1))"
proof -
  have h: "\<forall>v \<in> set [7, 256, 1, - 2, 1000 :: int]. INT_MIN \<le> v \<and> v \<le> INT_MAX"
    by (simp add: INT_MIN_def INT_MAX_def)
  have "loadSeedMasking (Some [Num 7, Num 256, Num 1, Num (- 2), Num 1000]) 0
       = Inr (Some ([256, 1, 4294967294], 7, 1))"
    by (simp add: loadSeedMasking_def extract_int_def extract_uint_def count_triplets.simps
        read_S.simps in_range_def INT_MIN_def INT_MAX_def UINT_MAX_def replicate_3)
  with mask_file_no_range_check [of "[]" 0 7 "[256, 1, - 2, 1000]"] h show ?thesis by simp
qed

text \<open>
  C10. The test before a restoration bounds the region from above only. The file
  \<^verbatim>\<open>-3 10 20 30\<close> is loaded with the seed \<open>-3\<close>; with a mask of 3 bytes and a
  picture of 3 bytes the test holds, and \<open>desenmascarar\<close> stores at the index \<open>-3\<close>,
  outside the buffer.
\<close>

theorem negative_seed_out_of_bounds:
  "loadSeedMasking (Some [Num (- 3), Num 10, Num 20, Num 30]) 0 = Inr (Some ([10, 20, 30], - 3, 1))
   \<and> region_valid 1 (- 3) 3 3 = Inr True
   \<and> desenmascarar [0xE1, 0xE1, 0xE1] [0, 0, 0] [10, 20, 30] (- 3) 3 = Inl OutOfBounds
   \<and> decoder_main (Some \<lparr>width = 1, height = 1, pixels = [0xEE, 0xEE, 0xEE]\<rparr>)
        (Some \<lparr>width = 1, height = 1, pixels = [0x0F, 0x0F, 0x0F]\<rparr>)
        (Some \<lparr>width = 1, height = 1, pixels = [0, 0, 0]\<rparr>)
        (Some [Num 0, Num 15, Num 15, Num 15])
        (Some [Num (- 3), Num 10, Num 20, Num 30]) True = Inl OutOfBounds"
  by (simp add: decoder_main_def pasos_inversos_def paso3_inverso_def paso2_inverso_def
        paso1_inverso_def xor_imRand_def rotar_izquierda_def desenmascarar_def region_valid_def
        loadSeedMasking_def extract_int_def extract_uint_def count_triplets.simps
        read_S.simps for_loop.simps in_range_def INT_MIN_def INT_MAX_def UINT_MAX_def
        bxor_def to_uchar_def replicate_3)

theorem negative_seed_out_of_bounds_witness:
  "region_valid 1 (- 3) 3 3 = Inr True
   \<and> desenmascarar [0xE1, 0xE1, 0xE1] [0, 0, 0] [10, 20, 30] (- 3) 3 = Inl OutOfBounds"
  using negative_seed_out_of_bounds by blast

section \<open>The inverse steps in closed form\<close>

lemma restored_sum:
  "(ucast ((s - ucast m) AND 0xFF :: u32) :: u8) = ucast s - m" for s :: u32 and m :: u8
proof (rule word_uint_eqI)
  have "uint (ucast s - m :: u8) = (uint (ucast s :: u8) - uint m) mod 2 ^ 8"
    by (simp add: uint_word_ariths)
  also have "uint (ucast s :: u8) = uint s mod 2 ^ 8"
    by (simp add: unsigned_ucast_eq take_bit_eq_mod)
  also have "(uint s mod 2 ^ 8 - uint m) mod 2 ^ 8 = (uint s - uint m) mod 2 ^ 8"
    by (simp add: mod_diff_left_eq)
  finally show "uint (ucast ((s - ucast m) AND 0xFF :: u32) :: u8) = uint (ucast s - m :: u8)"
    by (simp add: restored_byte)
qed

lemma region_valid_True:
  "region_valid n seed totalMaskBytes dataSize = Inr True \<longleftrightarrow>
     totalMaskBytes \<le> n * 3 \<and> INT_MIN \<le> seed + totalMaskBytes
       \<and> seed + totalMaskBytes \<le> INT_MAX \<and> seed + totalMaskBytes \<le> dataSize"
  by (auto simp add: region_valid_def)

lemma desenmascarar_closed:
  assumes "0 \<le> seed" and "seed + totalBytes \<le> int (length img)"
    and "totalBytes \<le> int (length S)" and "totalBytes \<le> int (length msk)"
  shows "desenmascarar img msk S seed totalBytes
      = Inr (map (\<lambda>j. if seed \<le> int j \<and> int j < seed + totalBytes
                       then ucast (S ! nat (int j - seed)) - msk ! nat (int j - seed)
                       else img ! j) [0 ..< length img])"
proof -
  from desenmascarar_total [OF assms] obtain img'
    where run: "desenmascarar img msk S seed totalBytes = Inr img'" by blast
  from desenmascarar_result [OF run]
  have "img' = map (\<lambda>j. if seed \<le> int j \<and> int j < seed + totalBytes
                       then ucast (S ! nat (int j - seed)) - msk ! nat (int j - seed)
                       else img ! j) [0 ..< length img]"
    by (intro nth_equalityI) (simp_all add: restored_sum)
  with run show ?thesis by simp
qed

lemma desenmascarar_describes:
  assumes "0 \<le> seed" and "seed + totalBytes \<le> int (length img)"
    and "totalBytes \<le> int (length S)" and "totalBytes \<le> int (length msk)"
    and "describes S msk img seed totalBytes"
  shows "desenmascarar img msk S seed totalBytes = Inr img"
proof -
  have pt: "ucast (S ! nat (int j - seed)) - msk ! nat (int j - seed) = img ! j"
    if "seed \<le> int j" and "int j < seed + totalBytes" for j
  proof -
    from that have k: "int j - seed \<in> {0 ..< totalBytes}" by simp
    have "nat (seed + (int j - seed)) = j" by simp
    with assms(5) k have "(ucast (S ! nat (int j - seed)) :: u8)
        = img ! j + msk ! nat (int j - seed)"
      unfolding describes_def by metis
    then show ?thesis by simp
  qed
  have "map (\<lambda>j. if seed \<le> int j \<and> int j < seed + totalBytes
                       then ucast (S ! nat (int j - seed)) - msk ! nat (int j - seed)
                       else img ! j) [0 ..< length img] = img"
    by (intro nth_equalityI) (simp_all add: pt)
  with desenmascarar_closed [OF assms(1-4)] show ?thesis by simp
qed

lemma map2_xor_cancel:
  "length (a :: u8 list) = length b \<Longrightarrow> map2 (XOR) (map2 (XOR) a b) b = a"
  by (rule nth_equalityI) (simp_all add: xor.assoc)

lemma rotl_rotr_map: "map (word_rotl 3) (map (word_rotr 3) (a :: u8 list)) = a"
  by (rule nth_equalityI) simp_all

lemma encoder_main_closed:
  assumes "int (length X) = w * h * 3" and "int (length R) = w * h * 3"
  shows "encoder_main (Some \<lparr>width = w0, height = h0, pixels = X\<rparr>)
           (Some \<lparr>width = w, height = h, pixels = R\<rparr>)
      = Inr (Some \<lparr>P1 = map2 (XOR) X R,
                   P2 = map (word_rotr 3) (map2 (XOR) X R),
                   P3 = map2 (XOR) (map (word_rotr 3) (map2 (XOR) X R)) R\<rparr>)"
proof -
  have l: "length R = length X" using assms by simp
  have n: "w * h * 3 = int (length X)" using assms by simp
  have 1: "paso_xor X R (w * h * 3) = Inr (map2 (XOR) X R)"
    using n l by (intro paso_xor_whole) simp_all
  have 2: "paso_rotar (map2 (XOR) X R) (w * h * 3) = Inr (map (word_rotr 3) (map2 (XOR) X R))"
    using n l by (intro paso_rotar_whole) simp
  have 3: "paso_xor (map (word_rotr 3) (map2 (XOR) X R)) R (w * h * 3)
      = Inr (map2 (XOR) (map (word_rotr 3) (map2 (XOR) X R)) R)"
    using n l by (intro paso_xor_whole) simp_all
  show ?thesis by (simp add: encoder_main_def 1 2 3 del: map_map)
qed

lemma paso3_closed:
  assumes "dataSize = int (length img)" and "length imRand = length img"
    and "w2 * h2 * 3 = dataSize"
  shows "paso3_inverso dataSize w2 h2 imRand (img, out)
      = Inr (map2 (XOR) img imRand,
             if 0 < dataSize then out @ [''Paso 3 inverso: XOR aplicado(con im rand).''] else out)"
  using assms xor_imRand_whole [OF assms(1,2)]
  by (simp add: paso3_inverso_def)

lemma paso2_skipped:
  "region_valid n2 seed2 totalMaskBytes dataSize = Inr False \<Longrightarrow>
     paso2_inverso dataSize msk totalMaskBytes S2 seed2 n2 (img, out)
       = Inr (img, out @ [''S2: La  correccion no es valida.''])"
  by (simp add: paso2_inverso_def)

lemma paso1_skipped:
  "region_valid n1 seed1 totalMaskBytes dataSize = Inr False \<Longrightarrow>
     paso1_inverso dataSize imRand msk totalMaskBytes S1 seed1 n1 (img, out)
       = Inr (img, out @ [''S1: La region de correccion no es valida.''])"
  by (simp add: paso1_inverso_def)

lemma paso2_described:
  assumes "region_valid n2 seed2 totalMaskBytes dataSize = Inr True" and "0 \<le> seed2"
    and "int (length S2) = n2 * 3" and "int (length msk) = totalMaskBytes"
    and "dataSize = int (length img)" and "describes S2 msk img seed2 totalMaskBytes"
  shows "paso2_inverso dataSize msk totalMaskBytes S2 seed2 n2 (img, out)
      = Inr (map (word_rotl 3) img,
             out @ [''Paso 2 inverso: Desenmascarado con S2 y rotacion aplicada.''])"
proof -
  from assms(1) have v: "totalMaskBytes \<le> n2 * 3" "seed2 + totalMaskBytes \<le> dataSize"
    by (simp_all add: region_valid_True)
  have "desenmascarar img msk S2 seed2 totalMaskBytes = Inr img"
    using assms v by (intro desenmascarar_describes) simp_all
  with assms(1) rotar_izquierda_whole [OF assms(5)] show ?thesis
    by (simp add: paso2_inverso_def)
qed

lemma paso1_described:
  assumes "region_valid n1 seed1 totalMaskBytes dataSize = Inr True" and "0 \<le> seed1"
    and "int (length S1) = n1 * 3" and "int (length msk) = totalMaskBytes"
    and "dataSize = int (length img)" and "length imRand = length img"
    and "describes S1 msk img seed1 totalMaskBytes"
  shows "paso1_inverso dataSize imRand msk totalMaskBytes S1 seed1 n1 (img, out)
      = Inr (map2 (XOR) img imRand,
             out @ [''Paso 1 inverso: Desenmascarado con S1 y XOR aplicado.''])"
proof -
  from assms(1) have v: "totalMaskBytes \<le> n1 * 3" "seed1 + totalMaskBytes \<le> dataSize"
    by (simp_all add: region_valid_True)
  have "desenmascarar img msk S1 seed1 totalMaskBytes = Inr img"
    using assms v by (intro desenmascarar_describes) simp_all
  with assms(1) xor_imRand_whole [OF assms(5,6)] show ?thesis
    by (simp add: paso1_inverso_def)
qed

lemma decode_encoded:
  assumes "int (length X) = dataSize" and "int (length R) = dataSize"
    and "w2 * h2 * 3 = dataSize" and "int (length msk) = totalMaskBytes"
    and "region_valid n1 seed1 totalMaskBytes dataSize = Inr True" and "0 \<le> seed1"
    and "int (length S1) = n1 * 3"
    and "region_valid n2 seed2 totalMaskBytes dataSize = Inr True" and "0 \<le> seed2"
    and "int (length S2) = n2 * 3"
    and "describes S1 msk (map2 (XOR) X R) seed1 totalMaskBytes"
    and "describes S2 msk (map (word_rotr 3) (map2 (XOR) X R)) seed2 totalMaskBytes"
  shows "pasos_inversos dataSize (map2 (XOR) (map (word_rotr 3) (map2 (XOR) X R)) R) w2 h2 R
           msk totalMaskBytes S1 seed1 n1 S2 seed2 n2
      = Inr (X, (if 0 < dataSize then [''Paso 3 inverso: XOR aplicado(con im rand).''] else [])
                @ [''Paso 2 inverso: Desenmascarado con S2 y rotacion aplicada.'',
                   ''Paso 1 inverso: Desenmascarado con S1 y XOR aplicado.''])"
proof -
  define p1 where "p1 = map2 (XOR) X R"
  define p2 where "p2 = map (word_rotr 3) p1"
  define p3 where "p3 = map2 (XOR) p2 R"
  define o3 where "o3 = (if 0 < dataSize then [''Paso 3 inverso: XOR aplicado(con im rand).'']
                         else [])"
  define o2 where "o2 = o3 @ [''Paso 2 inverso: Desenmascarado con S2 y rotacion aplicada.'']"
  have l: "length R = length X" using assms(1,2) by simp
  have l1: "length p1 = length X" by (simp add: p1_def l)
  have l2: "length p2 = length X" by (simp add: p2_def l1)
  have l3: "length p3 = length X" by (simp add: p3_def l2 l)
  have d: "dataSize = int (length X)" using assms(1) by simp
  have x3: "map2 (XOR) p3 R = p2"
    unfolding p3_def by (rule map2_xor_cancel) (simp add: l l2)
  have x1: "map2 (XOR) p1 R = X"
    unfolding p1_def by (rule map2_xor_cancel) (simp add: l)
  have d1: "describes S1 msk p1 seed1 totalMaskBytes"
    using assms(11) by (simp only: p1_def)
  have d2: "describes S2 msk p2 seed2 totalMaskBytes"
    using assms(12) by (simp only: p2_def p1_def)
  have r2: "map (word_rotl 3) p2 = p1"
    unfolding p2_def by (rule rotl_rotr_map)
  have "paso3_inverso dataSize w2 h2 R (p3, [])
      = Inr (map2 (XOR) p3 R,
             if 0 < dataSize then [] @ [''Paso 3 inverso: XOR aplicado(con im rand).''] else [])"
    by (rule paso3_closed) (simp_all add: d l3 l assms(3) [unfolded d])
  then have 3: "paso3_inverso dataSize w2 h2 R (p3, []) = Inr (p2, o3)"
    by (simp add: x3 o3_def)
  have "paso2_inverso dataSize msk totalMaskBytes S2 seed2 n2 (p2, o3)
      = Inr (map (word_rotl 3) p2,
             o3 @ [''Paso 2 inverso: Desenmascarado con S2 y rotacion aplicada.''])"
    by (rule paso2_described [OF assms(8) assms(9) assms(10) assms(4)])
       (simp_all add: d l2 d2)
  then have 2: "paso2_inverso dataSize msk totalMaskBytes S2 seed2 n2 (p2, o3) = Inr (p1, o2)"
    by (simp add: r2 o2_def)
  have "paso1_inverso dataSize R msk totalMaskBytes S1 seed1 n1 (p1, o2)
      = Inr (map2 (XOR) p1 R, o2 @ [''Paso 1 inverso: Desenmascarado con S1 y XOR aplicado.''])"
    by (rule paso1_described [OF assms(5) assms(6) assms(7) assms(4)])
       (simp_all add: d l1 l d1)
  then have 1: "paso1_inverso dataSize R msk totalMaskBytes S1 seed1 n1 (p1, o2)
      = Inr (X, o2 @ [''Paso 1 inverso: Desenmascarado con S1 y XOR aplicado.''])"
    by (simp add: x1)
  have "pasos_inversos dataSize p3 w2 h2 R msk totalMaskBytes S1 seed1 n1 S2 seed2 n2
      = Inr (X, o2 @ [''Paso 1 inverso: Desenmascarado con S1 y XOR aplicado.''])"
    by (simp add: pasos_inversos_def 3 2 1)
  then show ?thesis
    by (simp add: p3_def p2_def p1_def o2_def o3_def del: map_map)
qed

lemma replicate_6: "replicate 6 x = [x, x, x, x, x, x]"
  by (simp add: numeral_eq_Suc)

lemma describes_3:
  "describes S msk buf seed 3 \<longleftrightarrow>
     (ucast (S ! 0) :: u8) = buf ! nat seed + msk ! 0
     \<and> (ucast (S ! 1) :: u8) = buf ! nat (seed + 1) + msk ! 1
     \<and> (ucast (S ! 2) :: u8) = buf ! nat (seed + 2) + msk ! 2"
proof -
  have "{0 ..< 3 :: int} = {0, 1, 2}" by auto
  then show ?thesis by (simp add: describes_def)
qed

section \<open>Round trip\<close>

lemma desenmascarar_nth:
  assumes "0 \<le> seed" and "seed + totalBytes \<le> int (length img)"
    and "totalBytes \<le> int (length S)" and "totalBytes \<le> int (length msk)"
  shows "\<exists>img'. desenmascarar img msk S seed totalBytes = Inr img' \<and> length img' = length img
     \<and> (\<forall>j < length img. \<not> in_region seed totalBytes j \<longrightarrow> img' ! j = img ! j)"
proof -
  from desenmascarar_total [OF assms] obtain img'
    where run: "desenmascarar img msk S seed totalBytes = Inr img'" by blast
  from desenmascarar_result [OF run] run show ?thesis
    by (auto simp add: in_region_def)
qed

lemma decode_encoded_frame:
  assumes "int (length X) = dataSize" and "int (length R) = dataSize"
    and "w2 * h2 * 3 = dataSize" and "int (length msk) = totalMaskBytes"
    and "region_valid n1 seed1 totalMaskBytes dataSize = Inr True" and "0 \<le> seed1"
    and "int (length S1) = n1 * 3"
    and "region_valid n2 seed2 totalMaskBytes dataSize = Inr True" and "0 \<le> seed2"
    and "int (length S2) = n2 * 3"
  shows "\<exists>img out. pasos_inversos dataSize (map2 (XOR) (map (word_rotr 3) (map2 (XOR) X R)) R)
            w2 h2 R msk totalMaskBytes S1 seed1 n1 S2 seed2 n2 = Inr (img, out)
     \<and> length img = length X
     \<and> (\<forall>j < length X. \<not> in_region seed1 totalMaskBytes j \<and> \<not> in_region seed2 totalMaskBytes j
           \<longrightarrow> img ! j = X ! j)"
proof -
  define p1 where "p1 = map2 (XOR) X R"
  define p2 where "p2 = map (word_rotr 3) p1"
  define p3 where "p3 = map2 (XOR) p2 R"
  define o3 where "o3 = (if 0 < dataSize then [''Paso 3 inverso: XOR aplicado(con im rand).'']
                         else [])"
  have l: "length R = length X" using assms(1,2) by simp
  have l1: "length p1 = length X" by (simp add: p1_def l)
  have l2: "length p2 = length X" by (simp add: p2_def l1)
  have l3: "length p3 = length X" by (simp add: p3_def l2 l)
  have d: "dataSize = int (length X)" using assms(1) by simp
  have x3: "map2 (XOR) p3 R = p2"
    unfolding p3_def by (rule map2_xor_cancel) (simp add: l l2)
  from assms(5) have v1: "totalMaskBytes \<le> n1 * 3" "seed1 + totalMaskBytes \<le> dataSize"
    by (simp_all add: region_valid_True)
  from assms(8) have v2: "totalMaskBytes \<le> n2 * 3" "seed2 + totalMaskBytes \<le> dataSize"
    by (simp_all add: region_valid_True)
  have "paso3_inverso dataSize w2 h2 R (p3, [])
      = Inr (map2 (XOR) p3 R,
             if 0 < dataSize then [] @ [''Paso 3 inverso: XOR aplicado(con im rand).''] else [])"
    by (rule paso3_closed) (simp_all add: d l3 l assms(3) [unfolded d])
  then have 3: "paso3_inverso dataSize w2 h2 R (p3, []) = Inr (p2, o3)"
    by (simp add: x3 o3_def)
  have "\<exists>img'. desenmascarar p2 msk S2 seed2 totalMaskBytes = Inr img' \<and> length img' = length p2
     \<and> (\<forall>j < length p2. \<not> in_region seed2 totalMaskBytes j \<longrightarrow> img' ! j = p2 ! j)"
    using assms(4,9,10) v2 d l2 by (intro desenmascarar_nth) simp_all
  then obtain q2 where q2: "desenmascarar p2 msk S2 seed2 totalMaskBytes = Inr q2"
    "length q2 = length X"
    "\<forall>j < length X. \<not> in_region seed2 totalMaskBytes j \<longrightarrow> q2 ! j = p2 ! j"
    using l2 by auto
  have rot: "rotar_izquierda q2 dataSize = Inr (map (word_rotl 3) q2)"
    by (rule rotar_izquierda_whole) (simp add: d q2(2))
  define r2 where "r2 = map (word_rotl 3) q2"
  have lr2: "length r2 = length X" by (simp add: r2_def q2(2))
  have 2: "paso2_inverso dataSize msk totalMaskBytes S2 seed2 n2 (p2, o3)
      = Inr (r2, o3 @ [''Paso 2 inverso: Desenmascarado con S2 y rotacion aplicada.''])"
    by (simp add: paso2_inverso_def assms(8) q2(1) rot r2_def)
  have "\<exists>img'. desenmascarar r2 msk S1 seed1 totalMaskBytes = Inr img' \<and> length img' = length r2
     \<and> (\<forall>j < length r2. \<not> in_region seed1 totalMaskBytes j \<longrightarrow> img' ! j = r2 ! j)"
    using assms(4,6,7) v1 d lr2 by (intro desenmascarar_nth) simp_all
  then obtain q1 where q1: "desenmascarar r2 msk S1 seed1 totalMaskBytes = Inr q1"
    "length q1 = length X"
    "\<forall>j < length X. \<not> in_region seed1 totalMaskBytes j \<longrightarrow> q1 ! j = r2 ! j"
    using lr2 by auto
  have x: "xor_imRand q1 R dataSize = Inr (map2 (XOR) q1 R)"
    by (rule xor_imRand_whole) (simp_all add: d q1(2) l)
  have 1: "paso1_inverso dataSize R msk totalMaskBytes S1 seed1 n1
         (r2, o3 @ [''Paso 2 inverso: Desenmascarado con S2 y rotacion aplicada.''])
      = Inr (map2 (XOR) q1 R,
             o3 @ [''Paso 2 inverso: Desenmascarado con S2 y rotacion aplicada.'']
                @ [''Paso 1 inverso: Desenmascarado con S1 y XOR aplicado.''])"
    by (simp add: paso1_inverso_def assms(5) q1(1) x)
  have run: "pasos_inversos dataSize p3 w2 h2 R msk totalMaskBytes S1 seed1 n1 S2 seed2 n2
      = Inr (map2 (XOR) q1 R,
             o3 @ [''Paso 2 inverso: Desenmascarado con S2 y rotacion aplicada.'']
                @ [''Paso 1 inverso: Desenmascarado con S1 y XOR aplicado.''])"
    by (simp add: pasos_inversos_def 3 2 1)
  have "map2 (XOR) q1 R ! j = X ! j"
    if j: "j < length X" and o: "\<not> in_region seed1 totalMaskBytes j"
      "\<not> in_region seed2 totalMaskBytes j" for j
  proof -
    have "q1 ! j = r2 ! j" using q1(3) j o(1) by simp
    also have "r2 ! j = word_rotl 3 (q2 ! j)" using j q2(2) by (simp add: r2_def)
    also have "q2 ! j = p2 ! j" using q2(3) j o(2) by simp
    also have "p2 ! j = word_rotr 3 (p1 ! j)" using j l1 by (simp add: p2_def)
    also have "word_rotl 3 (word_rotr 3 (p1 ! j)) = p1 ! j" by simp
    also have "p1 ! j = X ! j XOR R ! j" using j l by (simp add: p1_def)
    finally have "q1 ! j = X ! j XOR R ! j" .
    then show ?thesis using j l q1(2) by (simp add: xor.assoc)
  qed
  moreover have "length (map2 (XOR) q1 R) = length X" using q1(2) l by simp
  ultimately show ?thesis using run unfolding p3_def p2_def p1_def by blast
qed

text \<open>
  C1. Take a source buffer \<open>X\<close> and a secret buffer \<open>R\<close> of the same size
  \<open>w * h * 3\<close>, a mask of \<open>totalMaskBytes\<close> bytes and two records that pass the
  decoder's test at non-negative seeds. The encoder returns its three buffers, and the
  decoder's steps 3, 2, 1 on the encoder's \<open>P3\<close> return a buffer of the size of \<open>X\<close>
  that equals \<open>X\<close> at every index outside the two regions, and that is \<open>X\<close> itself
  when the records describe the regions of \<open>P1\<close> and \<open>P2\<close>.
\<close>

theorem pipeline_round_trip:
  assumes "int (length X) = w * h * 3" and "int (length R) = w * h * 3"
    and "int (length msk) = totalMaskBytes"
    and "region_valid n1 seed1 totalMaskBytes (w * h * 3) = Inr True" and "0 \<le> seed1"
    and "int (length S1) = n1 * 3"
    and "region_valid n2 seed2 totalMaskBytes (w * h * 3) = Inr True" and "0 \<le> seed2"
    and "int (length S2) = n2 * 3"
  shows "\<exists>E img out.
       encoder_main (Some \<lparr>width = w, height = h, pixels = X\<rparr>)
         (Some \<lparr>width = w, height = h, pixels = R\<rparr>) = Inr (Some E)
     \<and> pasos_inversos (w * h * 3) (P3 E) w h R msk totalMaskBytes S1 seed1 n1 S2 seed2 n2
         = Inr (img, out)
     \<and> length img = length X
     \<and> (\<forall>j < length X.
           \<not> in_region seed1 totalMaskBytes j \<and> \<not> in_region seed2 totalMaskBytes j
             \<longrightarrow> img ! j = X ! j)
     \<and> (describes S1 msk (P1 E) seed1 totalMaskBytes
          \<and> describes S2 msk (P2 E) seed2 totalMaskBytes \<longrightarrow> img = X)"
proof -
  let ?E = "\<lparr>P1 = map2 (XOR) X R, P2 = map (word_rotr 3) (map2 (XOR) X R),
             P3 = map2 (XOR) (map (word_rotr 3) (map2 (XOR) X R)) R\<rparr>"
  have enc: "encoder_main (Some \<lparr>width = w, height = h, pixels = X\<rparr>)
               (Some \<lparr>width = w, height = h, pixels = R\<rparr>) = Inr (Some ?E)"
    by (rule encoder_main_closed [OF assms(1,2)])
  from decode_encoded_frame [OF assms(1) assms(2) refl assms(3) assms(4) assms(5) assms(6)
      assms(7) assms(8) assms(9)]
  obtain img out where run: "pasos_inversos (w * h * 3)
        (map2 (XOR) (map (word_rotr 3) (map2 (XOR) X R)) R)
        w h R msk totalMaskBytes S1 seed1 n1 S2 seed2 n2 = Inr (img, out)"
    and len: "length img = length X"
    and frame: "\<forall>j < length X.
           \<not> in_region seed1 totalMaskBytes j \<and> \<not> in_region seed2 totalMaskBytes j
             \<longrightarrow> img ! j = X ! j"
    by blast
  have "img = X"
    if d: "describes S1 msk (map2 (XOR) X R) seed1 totalMaskBytes"
          "describes S2 msk (map (word_rotr 3) (map2 (XOR) X R)) seed2 totalMaskBytes"
    using decode_encoded [OF assms(1) assms(2) refl assms(3) assms(4) assms(5) assms(6)
            assms(7) assms(8) assms(9) d] run
    by simp
  then have "describes S1 msk (P1 ?E) seed1 totalMaskBytes
          \<and> describes S2 msk (P2 ?E) seed2 totalMaskBytes \<longrightarrow> img = X"
    by (simp del: map_map)
  moreover have "pasos_inversos (w * h * 3) (P3 ?E) w h R msk totalMaskBytes
      S1 seed1 n1 S2 seed2 n2 = Inr (img, out)"
    using run by (simp del: map_map)
  ultimately show ?thesis using enc len frame by blast
qed

theorem pipeline_round_trip_witness:
  "int (length [0x01, 0x02, 0x03, 0x04, 0x05, 0x06 :: u8]) = 2 * 1 * 3
   \<and> int (length [0x0F, 0xF0, 0xAA, 0x55, 0x00, 0xFF :: u8]) = 2 * 1 * 3
   \<and> int (length [0x05, 0x06, 0x07 :: u8]) = 3
   \<and> region_valid 1 3 3 (2 * 1 * 3) = Inr True \<and> (0::int) \<le> 3
   \<and> int (length [0x56, 0x0B, 0x00 :: u32]) = 1 * 3
   \<and> region_valid 1 0 3 (2 * 1 * 3) = Inr True \<and> (0::int) \<le> 0
   \<and> int (length [0xC6, 0x64, 0x3C :: u32]) = 1 * 3
   \<and> encoder_main (Some \<lparr>width = 2, height = 1, pixels = [0x01, 0x02, 0x03, 0x04, 0x05, 0x06]\<rparr>)
         (Some \<lparr>width = 2, height = 1, pixels = [0x0F, 0xF0, 0xAA, 0x55, 0x00, 0xFF]\<rparr>)
       = Inr (Some \<lparr>P1 = [0x0E, 0xF2, 0xA9, 0x51, 0x05, 0xF9],
                    P2 = [0xC1, 0x5E, 0x35, 0x2A, 0xA0, 0x3F],
                    P3 = [0xCE, 0xAE, 0x9F, 0x7F, 0xA0, 0xC0]\<rparr>)
   \<and> (\<exists>out. pasos_inversos (2 * 1 * 3) [0xCE, 0xAE, 0x9F, 0x7F, 0xA0, 0xC0] 2 1
                [0x0F, 0xF0, 0xAA, 0x55, 0x00, 0xFF] [0x05, 0x06, 0x07] 3
                [0x56, 0x0B, 0x00] 3 1 [0xC6, 0x64, 0x3C] 0 1
          = Inr ([0x01, 0x02, 0x03, 0x04, 0x05, 0x06], out))"
proof -
  have v1: "region_valid 1 3 3 (2 * 1 * 3) = Inr True"
    and v2: "region_valid 1 0 3 (2 * 1 * 3) = Inr True"
    by (simp_all add: region_valid_def INT_MIN_def INT_MAX_def)
  have enc: "encoder_main (Some \<lparr>width = 2, height = 1, pixels = [0x01, 0x02, 0x03, 0x04, 0x05, 0x06]\<rparr>)
         (Some \<lparr>width = 2, height = 1, pixels = [0x0F, 0xF0, 0xAA, 0x55, 0x00, 0xFF]\<rparr>)
       = Inr (Some \<lparr>P1 = [0x0E, 0xF2, 0xA9, 0x51, 0x05, 0xF9],
                    P2 = [0xC1, 0x5E, 0x35, 0x2A, 0xA0, 0x3F],
                    P3 = [0xCE, 0xAE, 0x9F, 0x7F, 0xA0, 0xC0]\<rparr>)"
    by (simp add: encoder_main_def paso_xor_def paso_rotar_def for_loop.simps in_range_def
          to_uchar_def replicate_6)
  have d1: "describes [0x56, 0x0B, 0x00] [0x05, 0x06, 0x07] [0x0E, 0xF2, 0xA9, 0x51, 0x05, 0xF9] 3 3"
    and d2: "describes [0xC6, 0x64, 0x3C] [0x05, 0x06, 0x07] [0xC1, 0x5E, 0x35, 0x2A, 0xA0, 0x3F] 0 3"
    by (simp_all add: describes_3)
  from pipeline_round_trip [of "[0x01, 0x02, 0x03, 0x04, 0x05, 0x06]" 2 1
      "[0x0F, 0xF0, 0xAA, 0x55, 0x00, 0xFF]" "[0x05, 0x06, 0x07]" 3 1 3 "[0x56, 0x0B, 0x00]"
      1 0 "[0xC6, 0x64, 0x3C]"] v1 v2 enc d1 d2
  show ?thesis by auto
qed

section \<open>Records that fail the test, and the length of a region\<close>

text \<open>
  C3, as stated, fails: with a record that does not pass the test, step 2 leaves the
  buffer as it is, while the rotation by 3 would have changed it.
\<close>

theorem skipped_step_counterexample:
  "region_valid 0 0 3 3 = Inr False
   \<and> paso2_inverso 3 [0x00, 0x00, 0x00] 3 [] 0 0 ([0xE1, 0xE1, 0xE1], [])
       = Inr ([0xE1, 0xE1, 0xE1], [''S2: La  correccion no es valida.''])
   \<and> rotar_izquierda [0xE1, 0xE1, 0xE1] 3 = Inr [0x0F, 0x0F, 0x0F]"
  by (simp add: paso2_inverso_def region_valid_def rotar_izquierda_def for_loop.simps
        in_range_def brotate_left_def to_uchar_def)

text \<open>
  C3, amended. When the test of a record fails, the decoder skips the whole step of that
  record, the restoration together with the rotation (step 2) or the XOR (step 1) of the
  whole buffer, writes the line that the correction is not valid, and goes on: after a
  skipped step 2, step 1 runs on the buffer that step 3 left.
\<close>

theorem invalid_record_skips_step:
  "(region_valid n2 seed2 totalMaskBytes dataSize = Inr False \<longrightarrow>
      paso2_inverso dataSize msk totalMaskBytes S2 seed2 n2 (img, out)
        = Inr (img, out @ [''S2: La  correccion no es valida.''])
      \<and> pasos_inversos dataSize img w2 h2 imRand msk totalMaskBytes S1 seed1 n1 S2 seed2 n2
        = (case paso3_inverso dataSize w2 h2 imRand (img, []) of
             Inl e \<Rightarrow> Inl e
           | Inr (img3, out3) \<Rightarrow>
               paso1_inverso dataSize imRand msk totalMaskBytes S1 seed1 n1
                 (img3, out3 @ [''S2: La  correccion no es valida.''])))
   \<and> (region_valid n1 seed1 totalMaskBytes dataSize = Inr False \<longrightarrow>
      paso1_inverso dataSize imRand msk totalMaskBytes S1 seed1 n1 (img, out)
        = Inr (img, out @ [''S1: La region de correccion no es valida.'']))"
  by (auto simp add: paso2_skipped paso1_skipped pasos_inversos_def split: sum.splits)

theorem invalid_record_skips_step_witness:
  "region_valid 0 0 3 3 = Inr False
   \<and> pasos_inversos 3 [0xEE, 0xEE, 0xEE] 1 1 [0x0F, 0x0F, 0x0F] [0x00, 0x00, 0x00] 3 [] 0 0 [] 0 0
       = Inr ([0xE1, 0xE1, 0xE1],
              [''Paso 3 inverso: XOR aplicado(con im rand).'',
               ''S2: La  correccion no es valida.'',
               ''S1: La region de correccion no es valida.''])"
proof -
  have v: "region_valid 0 0 3 3 = Inr False"
    by (simp add: region_valid_def)
  have 3: "paso3_inverso 3 1 1 [0x0F, 0x0F, 0x0F] ([0xEE, 0xEE, 0xEE], [])
      = Inr ([0xE1, 0xE1, 0xE1], [''Paso 3 inverso: XOR aplicado(con im rand).''])"
    by (simp add: paso3_inverso_def xor_imRand_def for_loop.simps in_range_def bxor_def
          to_uchar_def)
  from invalid_record_skips_step
      [where ?n2.0 = 0 and ?seed2.0 = 0 and totalMaskBytes = 3 and dataSize = 3
         and msk = "[0x00, 0x00, 0x00]" and ?S2.0 = "[]" and img = "[0xEE, 0xEE, 0xEE]"
         and out = "[]" and ?w2.0 = 1 and ?h2.0 = 1 and imRand = "[0x0F, 0x0F, 0x0F]"
         and ?S1.0 = "[]" and ?seed1.0 = 0 and ?n1.0 = 0]
    invalid_record_skips_step
      [where ?n2.0 = 0 and ?seed2.0 = 0 and totalMaskBytes = 3 and dataSize = 3
         and msk = "[0x00, 0x00, 0x00]" and ?S2.0 = "[]" and img = "[0xE1, 0xE1, 0xE1]"
         and out = "[''Paso 3 inverso: XOR aplicado(con im rand).'',
                     ''S2: La  correccion no es valida.'']"
         and ?w2.0 = 1 and ?h2.0 = 1 and imRand = "[0x0F, 0x0F, 0x0F]"
         and ?S1.0 = "[]" and ?seed1.0 = 0 and ?n1.0 = 0]
    v 3
  show ?thesis by simp
qed

text \<open>
  C6, as stated, fails: a record of 2 triplets with a mask of 3 bytes passes the test,
  and the restoration leaves the bytes 3, 4, 5 of the buffer as they were, whatever they
  were, although they lie within \<open>triplets * 3 = 6\<close> bytes from the seed.
\<close>

theorem region_length_counterexample:
  "region_valid 2 0 3 6 = Inr True
   \<and> desenmascarar [0x09, 0x09, 0x09, 0x09, 0x09, 0x09] [0x00, 0x00, 0x00]
        [0x01, 0x02, 0x03, 0x04, 0x05, 0x06] 0 3
       = Inr [0x01, 0x02, 0x03, 0x09, 0x09, 0x09]
   \<and> desenmascarar [0x09, 0x09, 0x09, 0x07, 0x07, 0x07] [0x00, 0x00, 0x00]
        [0x01, 0x02, 0x03, 0x04, 0x05, 0x06] 0 3
       = Inr [0x01, 0x02, 0x03, 0x07, 0x07, 0x07]"
  by (simp add: region_valid_def INT_MIN_def INT_MAX_def desenmascarar_def for_loop.simps
        in_range_def)

text \<open>
  C6, amended. The region restored has the length of the mask buffer,
  \<open>totalMaskBytes\<close>, which the test bounds by \<open>triplets * 3\<close>: for a record that
  passes the test at a non-negative seed the restoration completes, stores the restored
  byte at every index from \<open>seed\<close> to \<open>seed + totalMaskBytes\<close> and keeps every other
  byte.
\<close>

theorem restored_region:
  assumes "region_valid n seed totalMaskBytes dataSize = Inr True" and "0 \<le> seed"
    and "int (length S) = n * 3" and "int (length msk) = totalMaskBytes"
    and "int (length img) = dataSize"
  shows "totalMaskBytes \<le> n * 3
     \<and> (\<exists>img'. desenmascarar img msk S seed totalMaskBytes = Inr img'
          \<and> length img' = length img
          \<and> (\<forall>j < length img. img' ! j =
                (if seed \<le> int j \<and> int j < seed + totalMaskBytes
                 then ucast ((S ! nat (int j - seed) - ucast (msk ! nat (int j - seed))) AND 0xFF)
                 else img ! j)))"
proof -
  from assms(1) have v: "totalMaskBytes \<le> n * 3" "seed + totalMaskBytes \<le> dataSize"
    by (simp_all add: region_valid_True)
  have "\<exists>img'. desenmascarar img msk S seed totalMaskBytes = Inr img'"
    using assms v by (intro desenmascarar_total) simp_all
  then obtain img' where run: "desenmascarar img msk S seed totalMaskBytes = Inr img'" ..
  from desenmascarar_result [OF run] run v(1) show ?thesis by blast
qed

theorem restored_region_witness:
  "region_valid 2 1 3 6 = Inr True \<and> (0::int) \<le> 1
   \<and> int (length [0x11, 0x12, 0x13, 0x14, 0x15, 0x16 :: u32]) = 2 * 3
   \<and> int (length [0x01, 0x01, 0x01 :: u8]) = 3
   \<and> int (length [0x09, 0x09, 0x09, 0x09, 0x09, 0x09 :: u8]) = 6
   \<and> (3::int) \<le> 2 * 3
   \<and> desenmascarar [0x09, 0x09, 0x09, 0x09, 0x09, 0x09] [0x01, 0x01, 0x01]
        [0x11, 0x12, 0x13, 0x14, 0x15, 0x16] 1 3
       = Inr [0x09, 0x10, 0x11, 0x12, 0x09, 0x09]"
proof -
  have v: "region_valid 2 1 3 6 = Inr True"
    by (simp add: region_valid_def INT_MIN_def INT_MAX_def)
  have run: "desenmascarar [0x09, 0x09, 0x09, 0x09, 0x09, 0x09] [0x01, 0x01, 0x01]
        [0x11, 0x12, 0x13, 0x14, 0x15, 0x16] 1 3
       = Inr [0x09, 0x10, 0x11, 0x12, 0x09, 0x09]"
    by (simp add: desenmascarar_def for_loop.simps in_range_def)
  from restored_region [of 2 1 3 6 "[0x11, 0x12, 0x13, 0x14, 0x15, 0x16]" "[0x01, 0x01, 0x01]"
      "[0x09, 0x09, 0x09, 0x09, 0x09, 0x09]"] v run
  show ?thesis by simp
qed

section \<open>The 2 by 2 scenario\<close>

lemma replicate_12: "replicate 12 x = [x, x, x, x, x, x, x, x, x, x, x, x]"
  by (simp add: numeral_eq_Suc)

lemma scenario_encoded:
  "encoder_main (Some \<lparr>width = 2, height = 2, pixels = replicate 12 0x00\<rparr>)
       (Some \<lparr>width = 2, height = 2, pixels = replicate 12 0x0F\<rparr>)
     = Inr (Some \<lparr>P1 = replicate 12 0x0F, P2 = replicate 12 0xE1, P3 = replicate 12 0xEE\<rparr>)"
proof -
  have r: "word_rotr 3 (0x0F :: u8) = 0xE1"
    using rotr_bits [of 3 "0x0F", symmetric] by (simp add: to_uchar_def)
  have "encoder_main (Some \<lparr>width = 2, height = 2, pixels = replicate 12 0x00\<rparr>)
       (Some \<lparr>width = 2, height = 2, pixels = replicate 12 0x0F\<rparr>)
     = Inr (Some \<lparr>P1 = map2 (XOR) (replicate 12 0x00) (replicate 12 0x0F),
                  P2 = map (word_rotr 3) (map2 (XOR) (replicate 12 0x00) (replicate 12 0x0F)),
                  P3 = map2 (XOR) (map (word_rotr 3)
                         (map2 (XOR) (replicate 12 0x00) (replicate 12 0x0F)))
                         (replicate 12 0x0F)\<rparr>)"
    by (rule encoder_main_closed) simp_all
  then show ?thesis by (simp add: replicate_12 r)
qed

text \<open>
  C5, as stated, fails in its last part: with \<^verbatim>\<open>P3.bmp\<close> of 2 by 2 pixels, all
  \<open>0xEE\<close>, the secret all \<open>0x0F\<close>, a mask of one pixel and two mask files that hold a
  seed and no triplet, the decoder saves a buffer of \<open>0xE1\<close> bytes, not of zeros; and
  without the two mask files it returns 1 and saves nothing.
\<close>

theorem scenario_no_records_counterexample:
  "decoder_main
     (Some \<lparr>width = 2, height = 2,
            pixels = [0xEE, 0xEE, 0xEE, 0xEE, 0xEE, 0xEE, 0xEE, 0xEE, 0xEE, 0xEE, 0xEE, 0xEE]\<rparr>)
     (Some \<lparr>width = 2, height = 2,
            pixels = [0x0F, 0x0F, 0x0F, 0x0F, 0x0F, 0x0F, 0x0F, 0x0F, 0x0F, 0x0F, 0x0F, 0x0F]\<rparr>)
     (Some \<lparr>width = 1, height = 1, pixels = [0x00, 0x00, 0x00]\<rparr>)
     (Some [Num 0]) (Some [Num 0]) True
   = Inr \<lparr>exit_code = 0,
          I_D = Some [0xE1, 0xE1, 0xE1, 0xE1, 0xE1, 0xE1, 0xE1, 0xE1, 0xE1, 0xE1, 0xE1, 0xE1],
          cout = [''Paso 3 inverso: XOR aplicado(con im rand).'',
                  ''S2: La  correccion no es valida.'',
                  ''S1: La region de correccion no es valida.'',
                  ''Imagen I_D.bmp exportada correctamente.'']\<rparr>
   \<and> decoder_main
     (Some \<lparr>width = 2, height = 2,
            pixels = [0xEE, 0xEE, 0xEE, 0xEE, 0xEE, 0xEE, 0xEE, 0xEE, 0xEE, 0xEE, 0xEE, 0xEE]\<rparr>)
     (Some \<lparr>width = 2, height = 2,
            pixels = [0x0F, 0x0F, 0x0F, 0x0F, 0x0F, 0x0F, 0x0F, 0x0F, 0x0F, 0x0F, 0x0F, 0x0F]\<rparr>)
     (Some \<lparr>width = 1, height = 1, pixels = [0x00, 0x00, 0x00]\<rparr>)
     None None True
   = Inr \<lparr>exit_code = 1, I_D = None, cout = []\<rparr>"
  by (simp add: decoder_main_def pasos_inversos_def paso3_inverso_def paso2_inverso_def
        paso1_inverso_def xor_imRand_def region_valid_def
        loadSeedMasking_def extract_int_def count_triplets.simps
        read_S.simps for_loop.simps in_range_def INT_MIN_def INT_MAX_def
        bxor_def to_uchar_def)

text \<open>
  C5, amended. For the 2 by 2 buffer of zeros and the secret of \<open>0x0F\<close> bytes the
  encoder returns \<open>P1\<close> all \<open>0x0F\<close>, \<open>P2\<close> all \<open>0xE1\<close> and \<open>P3\<close> all \<open>0xEE\<close>.
  Decoding this \<open>P3\<close> with the same secret gives the buffer of zeros when both records
  pass the test and describe their regions; with records that hold no triplet and a mask
  of at least one byte both guarded steps are skipped and the result is all \<open>0xE1\<close>.
\<close>

theorem scenario_2x2:
  "encoder_main (Some \<lparr>width = 2, height = 2, pixels = replicate 12 0x00\<rparr>)
       (Some \<lparr>width = 2, height = 2, pixels = replicate 12 0x0F\<rparr>)
     = Inr (Some \<lparr>P1 = replicate 12 0x0F, P2 = replicate 12 0xE1, P3 = replicate 12 0xEE\<rparr>)
   \<and> (int (length msk) = totalMaskBytes
        \<and> region_valid n1 seed1 totalMaskBytes 12 = Inr True \<and> 0 \<le> seed1
        \<and> int (length S1) = n1 * 3
        \<and> region_valid n2 seed2 totalMaskBytes 12 = Inr True \<and> 0 \<le> seed2
        \<and> int (length S2) = n2 * 3
        \<and> describes S1 msk (replicate 12 0x0F) seed1 totalMaskBytes
        \<and> describes S2 msk (replicate 12 0xE1) seed2 totalMaskBytes \<longrightarrow>
       pasos_inversos 12 (replicate 12 0xEE) 2 2 (replicate 12 0x0F) msk totalMaskBytes
           S1 seed1 n1 S2 seed2 n2
         = Inr (replicate 12 0x00,
                [''Paso 3 inverso: XOR aplicado(con im rand).'',
                 ''Paso 2 inverso: Desenmascarado con S2 y rotacion aplicada.'',
                 ''Paso 1 inverso: Desenmascarado con S1 y XOR aplicado.'']))
   \<and> (0 < totalMaskBytes \<longrightarrow>
       pasos_inversos 12 (replicate 12 0xEE) 2 2 (replicate 12 0x0F) msk totalMaskBytes
           [] seed1 0 [] seed2 0
         = Inr (replicate 12 0xE1,
                [''Paso 3 inverso: XOR aplicado(con im rand).'',
                 ''S2: La  correccion no es valida.'',
                 ''S1: La region de correccion no es valida.'']))"
proof -
  have r: "word_rotr 3 (0x0F :: u8) = 0xE1"
    using rotr_bits [of 3 "0x0F", symmetric] by (simp add: to_uchar_def)
  have p1: "map2 (XOR) (replicate 12 (0x00 :: u8)) (replicate 12 0x0F) = replicate 12 0x0F"
    by (simp add: replicate_12)
  have p2: "map (word_rotr 3) (replicate 12 (0x0F :: u8)) = replicate 12 0xE1"
    by (simp add: r)
  have p3: "map2 (XOR) (replicate 12 (0xE1 :: u8)) (replicate 12 0x0F) = replicate 12 0xEE"
    by (simp add: replicate_12)
  have x3: "map2 (XOR) (replicate 12 (0xEE :: u8)) (replicate 12 0x0F) = replicate 12 0xE1"
    by (simp add: replicate_12)
  have valid: "pasos_inversos 12 (replicate 12 0xEE) 2 2 (replicate 12 0x0F) msk totalMaskBytes
           S1 seed1 n1 S2 seed2 n2
         = Inr (replicate 12 0x00,
                [''Paso 3 inverso: XOR aplicado(con im rand).'',
                 ''Paso 2 inverso: Desenmascarado con S2 y rotacion aplicada.'',
                 ''Paso 1 inverso: Desenmascarado con S1 y XOR aplicado.''])"
    if h: "int (length msk) = totalMaskBytes"
        "region_valid n1 seed1 totalMaskBytes 12 = Inr True" "0 \<le> seed1"
        "int (length S1) = n1 * 3"
        "region_valid n2 seed2 totalMaskBytes 12 = Inr True" "0 \<le> seed2"
        "int (length S2) = n2 * 3"
        "describes S1 msk (replicate 12 0x0F) seed1 totalMaskBytes"
        "describes S2 msk (replicate 12 0xE1) seed2 totalMaskBytes"
  proof -
    have "pasos_inversos 12
            (map2 (XOR) (map (word_rotr 3) (map2 (XOR) (replicate 12 0x00) (replicate 12 0x0F)))
               (replicate 12 0x0F))
            2 2 (replicate 12 0x0F) msk totalMaskBytes S1 seed1 n1 S2 seed2 n2
      = Inr (replicate 12 0x00,
             (if 0 < (12::int) then [''Paso 3 inverso: XOR aplicado(con im rand).''] else [])
                @ [''Paso 2 inverso: Desenmascarado con S2 y rotacion aplicada.'',
                   ''Paso 1 inverso: Desenmascarado con S1 y XOR aplicado.''])"
      by (rule decode_encoded [OF _ _ _ h(1) h(2) h(3) h(4) h(5) h(6) h(7)])
         (simp_all only: p1 p2 h(8) h(9), simp_all)
    then show ?thesis by (simp only: p1 p2 p3) simp
  qed
  have skipped: "pasos_inversos 12 (replicate 12 0xEE) 2 2 (replicate 12 0x0F) msk totalMaskBytes
           [] seed1 0 [] seed2 0
         = Inr (replicate 12 0xE1,
                [''Paso 3 inverso: XOR aplicado(con im rand).'',
                 ''S2: La  correccion no es valida.'',
                 ''S1: La region de correccion no es valida.''])"
    if "0 < totalMaskBytes"
  proof -
    have v: "region_valid 0 seed1 totalMaskBytes 12 = Inr False"
      "region_valid 0 seed2 totalMaskBytes 12 = Inr False"
      using that by (simp_all add: region_valid_def)
    have "paso3_inverso 12 2 2 (replicate 12 0x0F) (replicate 12 0xEE, [])
        = Inr (map2 (XOR) (replicate 12 0xEE) (replicate 12 0x0F),
               if 0 < (12::int) then [] @ [''Paso 3 inverso: XOR aplicado(con im rand).''] else [])"
      by (rule paso3_closed) simp_all
    then have 3: "paso3_inverso 12 2 2 (replicate 12 0x0F) (replicate 12 0xEE, [])
        = Inr (replicate 12 0xE1, [''Paso 3 inverso: XOR aplicado(con im rand).''])"
      by (simp only: x3) simp
    show ?thesis
      by (simp add: pasos_inversos_def 3 paso2_skipped [OF v(2)] paso1_skipped [OF v(1)])
  qed
  from scenario_encoded valid skipped show ?thesis by blast
qed

theorem scenario_2x2_witness:
  "int (length [0x05, 0x06, 0x07 :: u8]) = 3
   \<and> region_valid 1 3 3 12 = Inr True \<and> (0::int) \<le> 3
   \<and> int (length [0x14, 0x15, 0x16 :: u32]) = 1 * 3
   \<and> region_valid 1 0 3 12 = Inr True \<and> (0::int) \<le> 0
   \<and> int (length [0xE6, 0xE7, 0xE8 :: u32]) = 1 * 3
   \<and> pasos_inversos 12 (replicate 12 0xEE) 2 2 (replicate 12 0x0F) [0x05, 0x06, 0x07] 3
         [0x14, 0x15, 0x16] 3 1 [0xE6, 0xE7, 0xE8] 0 1
       = Inr (replicate 12 0x00,
              [''Paso 3 inverso: XOR aplicado(con im rand).'',
               ''Paso 2 inverso: Desenmascarado con S2 y rotacion aplicada.'',
               ''Paso 1 inverso: Desenmascarado con S1 y XOR aplicado.''])
   \<and> (0::int) < 3
   \<and> pasos_inversos 12 (replicate 12 0xEE) 2 2 (replicate 12 0x0F) [0x05, 0x06, 0x07] 3
         [] 3 0 [] 0 0
       = Inr (replicate 12 0xE1,
              [''Paso 3 inverso: XOR aplicado(con im rand).'',
               ''S2: La  correccion no es valida.'',
               ''S1: La region de correccion no es valida.''])"
proof -
  have v: "region_valid 1 3 3 12 = Inr True" "region_valid 1 0 3 12 = Inr True"
    by (simp_all add: region_valid_def INT_MIN_def INT_MAX_def)
  have d: "describes [0x14, 0x15, 0x16] [0x05, 0x06, 0x07] (replicate 12 0x0F) 3 3"
    "describes [0xE6, 0xE7, 0xE8] [0x05, 0x06, 0x07] (replicate 12 0xE1) 0 3"
    by (simp_all add: describes_3)
  from scenario_2x2 [where msk = "[0x05, 0x06, 0x07]" and totalMaskBytes = 3
      and ?n1.0 = 1 and ?seed1.0 = 3 and ?S1.0 = "[0x14, 0x15, 0x16]"
      and ?n2.0 = 1 and ?seed2.0 = 0 and ?S2.0 = "[0xE6, 0xE7, 0xE8]"] v d
  show ?thesis by simp
qed

end
